theory Spec2Isabelle
  imports Main "HOL-Library.Word" "HOL-Library.Multiset"
begin

unbundle bit_operations_syntax

section \<open>Basic types\<close>

text \<open>
  Go's \<open>[]byte\<close> is a list of 8-bit words, \<open>uint64\<close> a 64-bit word (comparison on words
  is unsigned, as in Go). A \<open>nil\<close> slice is \<open>None\<close> where the source tests for it
  (\<open>lastOpaque\<close>, \<open>buf\<close>); \<open>slice_bytes\<close> reads the contents of a possibly-nil slice.
\<close>

type_synonym byte = "8 word"
type_synonym bytes = "byte list"
type_synonym uint64 = "64 word"

definition slice_bytes :: "bytes option \<Rightarrow> bytes" where
  "slice_bytes s = (case s of None \<Rightarrow> [] | Some b \<Rightarrow> b)"

text \<open>The conversion \<open>[]byte(s)\<close> of a Go string.\<close>

definition string_bytes :: "string \<Rightarrow> bytes" where
  "string_bytes s = map of_char s"

text \<open>The conversion \<open>string(key)\<close> of a byte slice.\<close>

definition bytes_string :: "bytes \<Rightarrow> string" where
  "bytes_string b = map (\<lambda>x. char_of (unat x)) b"

datatype error =
    AlreadyClosed                    \<comment> \<open>"BleveDest already closed"\<close>
  | ConsistencyUnsupported string    \<comment> \<open>"consistency wait unsupported level: ..."\<close>
  | ConsistencyClosed                \<comment> \<open>"consistency wait closed"\<close>
  | UnexpectedSeqMaxSize             \<comment> \<open>"unexpected size for seqMax bytes"\<close>
  | EngineError string               \<comment> \<open>an error of the underlying index\<close>
  | PartitionFuncError "16 word" error
      \<comment> \<open>"error: VBucketIdToPartitionDest, partition func, vbucketId: ..., err: ..."\<close>

section \<open>encoding/binary: big-endian uint64\<close>

text \<open>\<open>binary.BigEndian.PutUint64\<close>: \<open>b[0] = byte(v >> 56)\<close>, ..., \<open>b[7] = byte(v)\<close>.\<close>

definition PutUint64 :: "uint64 \<Rightarrow> bytes" where
  "PutUint64 v =
     [ucast (drop_bit 56 v), ucast (drop_bit 48 v), ucast (drop_bit 40 v),
      ucast (drop_bit 32 v), ucast (drop_bit 24 v), ucast (drop_bit 16 v),
      ucast (drop_bit 8 v), ucast v]"

text \<open>
  \<open>binary.BigEndian.Uint64\<close>:
  \<open>uint64(b[7]) | uint64(b[6])<<8 | ... | uint64(b[0])<<56\<close>. The source calls it on
  \<open>buf[0:8]\<close> after checking \<open>len(buf) = 8\<close>.
\<close>

definition Uint64 :: "bytes \<Rightarrow> uint64" where
  "Uint64 b =
     ucast (b ! 7) OR push_bit 8 (ucast (b ! 6)) OR push_bit 16 (ucast (b ! 5))
       OR push_bit 24 (ucast (b ! 4)) OR push_bit 32 (ucast (b ! 3))
       OR push_bit 40 (ucast (b ! 2)) OR push_bit 48 (ucast (b ! 1))
       OR push_bit 56 (ucast (b ! 0))"

section \<open>The underlying full-text index\<close>

text \<open>
  A batch of the engine: the operations recorded by \<open>Index\<close>, \<open>Delete\<close> and
  \<open>SetInternal\<close>, in the order they were recorded. \<open>bleve.NewBatch()\<close> is \<open>[]\<close>.
\<close>

datatype batch_op =
    Index string bytes
  | Delete string
  | SetInternal bytes bytes

type_synonym Batch = "batch_op list"

datatype engine_call = CallBatch Batch | CallGetInternal bytes | CallClose

text \<open>
  Modelled from the spec: the full-text index engine (bleve) is an external collaborator
  whose code is not part of the sources. It is modelled by its consumed contract:
  \<open>applyBatch(b)\<close> is an atomic commit of the batch including its set-internal
  operations, \<open>getInternal(k)\<close> returns the bytes stored under an internal key (an empty
  result when there are none), and every call may fail with an engine error. The fields
  \<open>batchFault\<close>, \<open>getFault\<close> and \<open>closeFault\<close> say which calls fail; \<open>calls\<close> logs the
  calls the engine receives.
\<close>

record bleve_index =
  docs :: "string \<rightharpoonup> bytes"
  internal :: "bytes \<rightharpoonup> bytes"
  batchFault :: "error option"
  getFault :: "bytes \<Rightarrow> error option"
  closeFault :: "error option"
  calls :: "engine_call list"

fun applyOp :: "bleve_index \<Rightarrow> batch_op \<Rightarrow> bleve_index" where
  "applyOp ix (Index k v) = ix\<lparr>docs := (docs ix)(k \<mapsto> v)\<rparr>"
| "applyOp ix (Delete k) = ix\<lparr>docs := (docs ix)(k := None)\<rparr>"
| "applyOp ix (SetInternal k v) = ix\<lparr>internal := (internal ix)(k \<mapsto> v)\<rparr>"

definition IndexBatch :: "bleve_index \<Rightarrow> Batch \<Rightarrow> error option \<times> bleve_index" where
  "IndexBatch ix b =
     (let ix1 = ix\<lparr>calls := calls ix @ [CallBatch b]\<rparr> in
      case batchFault ix of
        Some e \<Rightarrow> (Some e, ix1)
      | None \<Rightarrow> (None, foldl applyOp ix1 b))"

definition GetInternal :: "bleve_index \<Rightarrow> bytes \<Rightarrow> (error + bytes) \<times> bleve_index" where
  "GetInternal ix k =
     (let ix1 = ix\<lparr>calls := calls ix @ [CallGetInternal k]\<rparr> in
      case getFault ix k of
        Some e \<Rightarrow> (Inl e, ix1)
      | None \<Rightarrow> (Inr (case internal ix k of None \<Rightarrow> [] | Some v \<Rightarrow> v), ix1))"

definition IndexClose :: "bleve_index \<Rightarrow> error option \<times> bleve_index" where
  "IndexClose ix =
     (let ix1 = ix\<lparr>calls := calls ix @ [CallClose]\<rparr> in (closeFault ix, ix1))"

section \<open>Consistency wait requests and their queue\<close>

text \<open>
  A request is created only by \<open>ConsistencyWait\<close>, which always makes its \<open>doneCh\<close>;
  channels are identified by numbers. A signal is what a waiter receives on \<open>doneCh\<close>:
  \<open>close(doneCh)\<close> alone delivers no error (\<open>None\<close>), \<open>doneCh <- err\<close> followed by
  \<open>close(doneCh)\<close> delivers \<open>err\<close>.
\<close>

record consistencyWaitReq =
  consistencyLevel :: string
  consistencySeq :: uint64
  cancelCh :: "nat option"
  doneCh :: nat

type_synonym signal = "consistencyWaitReq \<times> error option"

type_synonym cwrQueue = "consistencyWaitReq list"

definition Less :: "cwrQueue \<Rightarrow> nat \<Rightarrow> nat \<Rightarrow> bool" where
  "Less pq i j = (consistencySeq (pq ! i) < consistencySeq (pq ! j))"

definition Swap :: "cwrQueue \<Rightarrow> nat \<Rightarrow> nat \<Rightarrow> cwrQueue" where
  "Swap pq i j = pq[i := pq ! j, j := pq ! i]"

definition Push :: "cwrQueue \<Rightarrow> consistencyWaitReq \<Rightarrow> cwrQueue" where
  "Push pq x = pq @ [x]"

text \<open>\<open>cwrQueue.Pop\<close> indexes \<open>old[n-1]\<close>, which panics on an empty queue (\<open>None\<close>).\<close>

definition Pop :: "cwrQueue \<Rightarrow> (consistencyWaitReq \<times> cwrQueue) option" where
  "Pop old =
     (let n = length old in
      if n = 0 then None else Some (old ! (n - 1), take (n - 1) old))"

subsection \<open>container/heap\<close>

text \<open>
  The functions \<open>up\<close>, \<open>down\<close>, \<open>heap.Push\<close> and \<open>heap.Pop\<close> of Go's standard library,
  over the \<open>Len\<close>, \<open>Less\<close>, \<open>Swap\<close>, \<open>Push\<close> and \<open>Pop\<close> of \<open>cwrQueue\<close>. Indices are
  natural numbers: Go computes the parent of \<open>j\<close> as \<open>(j - 1) / 2\<close>, which truncates to
  \<open>0\<close> at \<open>j = 0\<close> as the subtraction on \<open>nat\<close> does. \<open>heap.Init\<close> on the empty queue of a
  new partition does nothing.
\<close>

function up :: "cwrQueue \<Rightarrow> nat \<Rightarrow> cwrQueue" where
  "up h j =
     (let i = (j - 1) div 2 in
      if i = j \<or> \<not> Less h j i then h else up (Swap h i j) i)"
  by pat_completeness auto
termination
  by (relation "measure (\<lambda>(h, j). j)") auto

function down :: "cwrQueue \<Rightarrow> nat \<Rightarrow> nat \<Rightarrow> cwrQueue" where
  "down h i n =
     (let j1 = 2 * i + 1 in
      if j1 \<ge> n then h
      else
        let j = (if j1 + 1 < n \<and> Less h (j1 + 1) j1 then j1 + 1 else j1) in
        if \<not> Less h j i then h else down (Swap h i j) j n)"
  by pat_completeness auto
termination
  by (relation "measure (\<lambda>(h, i, n). n - i)") auto

declare up.simps [simp del] down.simps [simp del]

definition heap_Push :: "cwrQueue \<Rightarrow> consistencyWaitReq \<Rightarrow> cwrQueue" where
  "heap_Push h x = (let h1 = Push h x in up h1 (length h1 - 1))"

text \<open>\<open>heap.Pop\<close> on an empty queue panics in \<open>Swap(0, -1)\<close> (\<open>None\<close>).\<close>

definition heap_Pop :: "cwrQueue \<Rightarrow> (consistencyWaitReq \<times> cwrQueue) option" where
  "heap_Pop h =
     (if length h = 0 then None
      else
        let n = length h - 1;
            h1 = Swap h 0 n;
            h2 = down h1 0 n
        in Pop h2)"

section \<open>The partition ingestor\<close>

record BleveDestPartition =
  partition :: string
  partitionOpaque :: string
  seqMax :: uint64
  seqMaxBuf :: bytes
  seqMaxBatch :: uint64
  seqSnapEnd :: uint64
  buf :: "bytes option"
  batch :: Batch
  lastOpaque :: "bytes option"
  cwrQueue :: cwrQueue

definition BLEVE_DEST_INITIAL_BUF_SIZE_BYTES :: nat where
  "BLEVE_DEST_INITIAL_BUF_SIZE_BYTES = 20000"

definition BLEVE_DEST_APPLY_BUF_SIZE_BYTES :: nat where
  "BLEVE_DEST_APPLY_BUF_SIZE_BYTES = 200000"

text \<open>The partition that \<open>getPartitionUnlocked\<close> creates on first touch.\<close>

definition newBleveDestPartition :: "string \<Rightarrow> BleveDestPartition" where
  "newBleveDestPartition p =
     \<lparr>partition = p, partitionOpaque = ''o:'' @ p,
      seqMax = 0, seqMaxBuf = replicate 8 0, seqMaxBatch = 0, seqSnapEnd = 0,
      buf = None, batch = [], lastOpaque = None, cwrQueue = []\<rparr>"

subsection \<open>The heap order and the correctness of the heap operations\<close>

text \<open>
  \<open>is_heap\<close> is the order \<open>container/heap\<close> maintains: no request has a smaller
  \<open>consistencySeq\<close> than its parent, so the request at index 0 has the least one.
  \<open>minChild\<close> names the child that \<open>down\<close> selects; \<open>down_inv\<close> and \<open>up_inv\<close> are the
  loop invariants of \<open>down\<close> and \<open>up\<close>.
\<close>

definition minChild :: "cwrQueue \<Rightarrow> nat \<Rightarrow> nat \<Rightarrow> nat" where
  "minChild h i n = (if 2 * i + 1 + 1 < n \<and> Less h (2 * i + 1 + 1) (2 * i + 1) then 2 * i + 1 + 1 else 2 * i + 1)"

lemma length_Swap [simp]: "length (Swap h i j) = length h"
  by (simp add: Swap_def)

lemma down_stop: "n \<le> 2 * i + 1 \<Longrightarrow> down h i n = h"
  by (subst down.simps) (simp add: Let_def)

lemma down_step:
  "2 * i + 1 < n \<Longrightarrow>
   down h i n = (if Less h (minChild h i n) i then down (Swap h i (minChild h i n)) (minChild h i n) n else h)"
  by (subst down.simps) (simp add: Let_def minChild_def)

lemma minChild_gt: "i < minChild h i n"
  by (simp add: minChild_def)

lemma down_induct [case_names stop keep swap]:
  assumes "\<And>h i n. n \<le> 2 * i + 1 \<Longrightarrow> P h i n"
    and "\<And>h i n. 2 * i + 1 < n \<Longrightarrow> \<not> Less h (minChild h i n) i \<Longrightarrow> P h i n"
    and "\<And>h i n. 2 * i + 1 < n \<Longrightarrow> Less h (minChild h i n) i \<Longrightarrow>
           P (Swap h i (minChild h i n)) (minChild h i n) n \<Longrightarrow> P h i n"
  shows "P h i n"
proof (induction "n - i" arbitrary: h i rule: less_induct)
  case less
  show ?case
  proof (cases "n \<le> 2 * i + 1")
    case True
    then show ?thesis by (rule assms(1))
  next
    case False
    then have lt: "2 * i + 1 < n" by simp
    show ?thesis
    proof (cases "Less h (minChild h i n) i")
      case False
      with lt show ?thesis by (rule assms(2))
    next
      case True
      have "n - minChild h i n < n - i"
        using lt minChild_gt [of i h n] by arith
      then have "P (Swap h i (minChild h i n)) (minChild h i n) n"
        by (rule less)
      with lt True show ?thesis by (rule assms(3))
    qed
  qed
qed

lemma length_down [simp]: "length (down h i n) = length h"
  by (induction h i n rule: down_induct) (simp_all add: down_stop down_step)

lemma up_stop: "(j - 1) div 2 = j \<or> \<not> Less h j ((j - 1) div 2) \<Longrightarrow> up h j = h"
  by (subst up.simps) (simp add: Let_def)

lemma up_step: "(j - 1) div 2 \<noteq> j \<Longrightarrow> Less h j ((j - 1) div 2) \<Longrightarrow>
   up h j = up (Swap h ((j - 1) div 2) j) ((j - 1) div 2)"
  by (subst up.simps) (simp add: Let_def)

lemma up_induct [case_names stop swap]:
  assumes "\<And>h j. (j - 1) div 2 = j \<or> \<not> Less h j ((j - 1) div 2) \<Longrightarrow> P h j"
    and "\<And>h j. (j - 1) div 2 \<noteq> j \<Longrightarrow> Less h j ((j - 1) div 2) \<Longrightarrow>
           P (Swap h ((j - 1) div 2) j) ((j - 1) div 2) \<Longrightarrow> P h j"
  shows "P h j"
proof (induction j arbitrary: h rule: less_induct)
  case (less j)
  show ?case
  proof (cases "(j - 1) div 2 = j \<or> \<not> Less h j ((j - 1) div 2)")
    case True
    then show ?thesis by (rule assms(1))
  next
    case False
    then have a: "(j - 1) div 2 \<noteq> j" and b: "Less h j ((j - 1) div 2)" by auto
    from a have "(j - 1) div 2 < j" by arith
    then have "P (Swap h ((j - 1) div 2) j) ((j - 1) div 2)" by (rule less)
    with a b show ?thesis by (rule assms(2))
  qed
qed

lemma length_up [simp]: "length (up h j) = length h"
  by (induction h j rule: up_induct) (simp_all add: up_stop up_step)


definition is_heap :: "cwrQueue \<Rightarrow> bool" where
  "is_heap h = (\<forall>j\<in>{1..<length h}. consistencySeq (h ! ((j - 1) div 2)) \<le> consistencySeq (h ! j))"

definition heap_upto :: "cwrQueue \<Rightarrow> nat \<Rightarrow> bool" where
  "heap_upto h n = (\<forall>k. 0 < k \<and> k < n \<longrightarrow> consistencySeq (h ! ((k - 1) div 2)) \<le> consistencySeq (h ! k))"

definition down_inv :: "cwrQueue \<Rightarrow> nat \<Rightarrow> nat \<Rightarrow> bool" where
  "down_inv h i n =
     (n \<le> length h \<and>
      (\<forall>k. 0 < k \<and> k < n \<and> (k - 1) div 2 \<noteq> i \<longrightarrow>
           consistencySeq (h ! ((k - 1) div 2)) \<le> consistencySeq (h ! k)) \<and>
      (\<forall>k. 0 < k \<and> k < n \<and> (k - 1) div 2 = i \<and> 0 < i \<longrightarrow>
           consistencySeq (h ! ((i - 1) div 2)) \<le> consistencySeq (h ! k)))"

lemma down_invD1:
  "down_inv h i n \<Longrightarrow> 0 < k \<Longrightarrow> k < n \<Longrightarrow> (k - 1) div 2 \<noteq> i \<Longrightarrow>
   consistencySeq (h ! ((k - 1) div 2)) \<le> consistencySeq (h ! k)"
  unfolding down_inv_def by blast

lemma down_invD2:
  "down_inv h i n \<Longrightarrow> 0 < k \<Longrightarrow> k < n \<Longrightarrow> (k - 1) div 2 = i \<Longrightarrow> 0 < i \<Longrightarrow>
   consistencySeq (h ! ((i - 1) div 2)) \<le> consistencySeq (h ! k)"
  unfolding down_inv_def by blast

lemma is_heap_upto: "is_heap h = heap_upto h (length h)"
  by (auto simp: is_heap_def heap_upto_def)

lemma parent_cases: "0 < (k::nat) \<Longrightarrow> ((k - 1) div 2 = i) = (k = 2 * i + 1 \<or> k = 2 * i + 2)"
  by arith

lemma nth_Swap:
  "i < length h \<Longrightarrow> j < length h \<Longrightarrow>
   Swap h i j ! k = (if k = j then h ! i else if k = i then h ! j else h ! k)"
  by (auto simp: Swap_def nth_list_update)

lemma minChild_cases:
  "2 * i + 1 < n \<Longrightarrow> minChild h i n = 2 * i + 1 \<or> (minChild h i n = 2 * i + 2 \<and> 2 * i + 2 < n)"
  by (auto simp: minChild_def)

lemma minChild_lt: "2 * i + 1 < n \<Longrightarrow> minChild h i n < n"
  by (auto simp: minChild_def)

lemma minChild_le:
  assumes "2 * i + 1 < n" "0 < k" "k < n" "(k - 1) div 2 = i"
  shows "consistencySeq (h ! minChild h i n) \<le> consistencySeq (h ! k)"
proof -
  from assms(2,4) have "k = 2 * i + 1 \<or> k = 2 * i + 2" by arith
  then show ?thesis using assms(1,3)
    by (auto simp: minChild_def Less_def)
qed

lemma down_heap: "down_inv h i n \<Longrightarrow> heap_upto (down h i n) n"
proof (induction h i n rule: down_induct)
  case (stop h i n)
  have "consistencySeq (h ! ((k - 1) div 2)) \<le> consistencySeq (h ! k)" if "0 < k" "k < n" for k
  proof -
    from that stop.hyps have "(k - 1) div 2 \<noteq> i" by arith
    with that stop.prems show ?thesis by (blast intro: down_invD1)
  qed
  then show ?case by (simp add: down_stop [OF stop.hyps] heap_upto_def)
next
  case (keep h i n)
  have "consistencySeq (h ! ((k - 1) div 2)) \<le> consistencySeq (h ! k)" if k: "0 < k" "k < n" for k
  proof (cases "(k - 1) div 2 = i")
    case False
    with k keep.prems show ?thesis by (blast intro: down_invD1)
  next
    case True
    have "consistencySeq (h ! i) \<le> consistencySeq (h ! minChild h i n)"
      using keep.hyps(2) by (simp add: Less_def)
    also have "\<dots> \<le> consistencySeq (h ! k)"
      by (rule minChild_le [OF keep.hyps(1) k True])
    finally show ?thesis using True by simp
  qed
  then show ?case using keep.hyps by (simp add: down_step heap_upto_def)
next
  case (swap h i n)
  let ?j = "minChild h i n"
  let ?h = "Swap h i ?j"
  have n: "n \<le> length h" using swap.prems by (simp add: down_inv_def)
  have jn: "?j < n" by (rule minChild_lt [OF swap.hyps(1)])
  have ij: "i < ?j" by (rule minChild_gt)
  have pj: "(?j - 1) div 2 = i" using minChild_cases [OF swap.hyps(1), of h] by auto
  have il: "i < length h" and jl: "?j < length h" using n jn ij by auto
  have lt: "consistencySeq (h ! ?j) < consistencySeq (h ! i)"
    using swap.hyps(2) by (simp add: Less_def)
  have A: "consistencySeq (?h ! ((k - 1) div 2)) \<le> consistencySeq (?h ! k)"
    if k: "0 < k" "k < n" "(k - 1) div 2 \<noteq> ?j" for k
  proof -
    consider "k = ?j" | "k \<noteq> ?j" "(k - 1) div 2 = i" | "k = i" | "k \<noteq> ?j" "k \<noteq> i" "(k - 1) div 2 \<noteq> i"
      by blast
    then show ?thesis
    proof cases
      case 1
      with pj ij lt show ?thesis by (simp add: nth_Swap [OF il jl])
    next
      case 2
      then have ki: "k \<noteq> i" using k(1) by arith
      have "consistencySeq (h ! ?j) \<le> consistencySeq (h ! k)"
        by (rule minChild_le [OF swap.hyps(1) k(1,2) 2(2)])
      with 2 ki ij show ?thesis by (simp add: nth_Swap [OF il jl])
    next
      case 3
      with k(1) have i0: "0 < i" by simp
      have pi: "(i - 1) div 2 \<noteq> i" "(i - 1) div 2 \<noteq> ?j" using i0 ij by arith+
      have "consistencySeq (h ! ((i - 1) div 2)) \<le> consistencySeq (h ! ?j)"
        using ij by (intro down_invD2 [OF swap.prems _ jn pj i0]) simp
      with 3 pi ij show ?thesis by (simp add: nth_Swap [OF il jl])
    next
      case 4
      then have "consistencySeq (h ! ((k - 1) div 2)) \<le> consistencySeq (h ! k)"
        using swap.prems k by (blast intro: down_invD1)
      with 4 k(3) show ?thesis by (simp add: nth_Swap [OF il jl])
    qed
  qed
  have B: "consistencySeq (?h ! ((?j - 1) div 2)) \<le> consistencySeq (?h ! k)"
    if k: "0 < k" "k < n" "(k - 1) div 2 = ?j" for k
  proof -
    from k ij have kj: "k \<noteq> ?j" "k \<noteq> i" by arith+
    from k ij have "(k - 1) div 2 \<noteq> i" by simp
    then have "consistencySeq (h ! ((k - 1) div 2)) \<le> consistencySeq (h ! k)"
      using swap.prems k by (blast intro: down_invD1)
    with kj k(3) pj ij show ?thesis by (simp add: nth_Swap [OF il jl])
  qed
  have "down_inv ?h ?j n"
    using n A B by (simp add: down_inv_def)
  then have "heap_upto (down ?h ?j n) n" by (rule swap.IH)
  then show ?case using swap.hyps by (simp add: down_step)
qed

lemma down_outside: "n \<le> k \<Longrightarrow> n \<le> length h \<Longrightarrow> down h i n ! k = h ! k"
proof (induction h i n rule: down_induct)
  case (stop h i n)
  then show ?case by (simp add: down_stop)
next
  case (keep h i n)
  then show ?case by (simp add: down_step)
next
  case (swap h i n)
  have jn: "minChild h i n < n" by (rule minChild_lt [OF swap.hyps(1)])
  have ij: "i < minChild h i n" by (rule minChild_gt)
  from swap jn ij show ?case
    by (simp add: down_step nth_Swap)
qed

lemma mset_Swap: "i < length h \<Longrightarrow> j < length h \<Longrightarrow> mset (Swap h i j) = mset h"
  by (simp add: Swap_def mset_swap)

lemma mset_down: "n \<le> length h \<Longrightarrow> mset (down h i n) = mset h"
proof (induction h i n rule: down_induct)
  case (stop h i n)
  then show ?case by (simp add: down_stop)
next
  case (keep h i n)
  then show ?case by (simp add: down_step)
next
  case (swap h i n)
  have jn: "minChild h i n < n" by (rule minChild_lt [OF swap.hyps(1)])
  have ij: "i < minChild h i n" by (rule minChild_gt)
  from swap jn ij show ?case
    by (simp add: down_step mset_Swap)
qed


definition up_inv :: "cwrQueue \<Rightarrow> nat \<Rightarrow> bool" where
  "up_inv h j =
     (j < length h \<and>
      (\<forall>k. 0 < k \<and> k < length h \<and> k \<noteq> j \<longrightarrow>
           consistencySeq (h ! ((k - 1) div 2)) \<le> consistencySeq (h ! k)) \<and>
      (\<forall>k. 0 < k \<and> k < length h \<and> (k - 1) div 2 = j \<and> 0 < j \<longrightarrow>
           consistencySeq (h ! ((j - 1) div 2)) \<le> consistencySeq (h ! k)))"

lemma up_invD1:
  "up_inv h j \<Longrightarrow> 0 < k \<Longrightarrow> k < length h \<Longrightarrow> k \<noteq> j \<Longrightarrow>
   consistencySeq (h ! ((k - 1) div 2)) \<le> consistencySeq (h ! k)"
  unfolding up_inv_def by blast

lemma up_invD2:
  "up_inv h j \<Longrightarrow> 0 < k \<Longrightarrow> k < length h \<Longrightarrow> (k - 1) div 2 = j \<Longrightarrow> 0 < j \<Longrightarrow>
   consistencySeq (h ! ((j - 1) div 2)) \<le> consistencySeq (h ! k)"
  unfolding up_inv_def by blast

lemma up_heap: "up_inv h j \<Longrightarrow> is_heap (up h j)"
proof (induction h j rule: up_induct)
  case (stop h j)
  have "consistencySeq (h ! ((k - 1) div 2)) \<le> consistencySeq (h ! k)"
    if k: "0 < k" "k < length h" for k
  proof (cases "k = j")
    case False
    with k stop.prems show ?thesis by (blast intro: up_invD1)
  next
    case True
    with k(1) have "(j - 1) div 2 \<noteq> j" by arith
    with stop.hyps have "\<not> Less h j ((j - 1) div 2)" by simp
    then show ?thesis using True by (simp add: Less_def)
  qed
  then show ?case by (simp add: up_stop [OF stop.hyps] is_heap_upto heap_upto_def)
next
  case (swap h j)
  let ?i = "(j - 1) div 2"
  let ?h = "Swap h ?i j"
  have jl: "j < length h" using swap.prems by (simp add: up_inv_def)
  have ij: "?i < j" using swap.hyps(1) by arith
  have j0: "0 < j" using ij by simp
  have il: "?i < length h" using ij jl by simp
  have lt: "consistencySeq (h ! j) < consistencySeq (h ! ?i)"
    using swap.hyps(2) by (simp add: Less_def)
  have A: "consistencySeq (?h ! ((k - 1) div 2)) \<le> consistencySeq (?h ! k)"
    if k: "0 < k" "k < length ?h" "k \<noteq> ?i" for k
  proof -
    have kl: "k < length h" using k(2) by simp
    consider "k = j" | "k \<noteq> j" "(k - 1) div 2 = ?i" | "k \<noteq> j" "(k - 1) div 2 = j"
      | "k \<noteq> j" "(k - 1) div 2 \<noteq> ?i" "(k - 1) div 2 \<noteq> j"
      by blast
    then show ?thesis
    proof cases
      case 1
      with ij lt show ?thesis by (simp add: nth_Swap [OF il jl] del: One_nat_def)
    next
      case 2
      have "consistencySeq (h ! ((k - 1) div 2)) \<le> consistencySeq (h ! k)"
        by (rule up_invD1 [OF swap.prems k(1) kl 2(1)])
      with 2 k(3) ij lt show ?thesis by (simp add: nth_Swap [OF il jl] del: One_nat_def)
    next
      case 3
      have "consistencySeq (h ! ?i) \<le> consistencySeq (h ! k)"
        by (rule up_invD2 [OF swap.prems k(1) kl 3(2) j0])
      with 3 k(3) ij show ?thesis by (simp add: nth_Swap [OF il jl] del: One_nat_def)
    next
      case 4
      have "consistencySeq (h ! ((k - 1) div 2)) \<le> consistencySeq (h ! k)"
        by (rule up_invD1 [OF swap.prems k(1) kl 4(1)])
      with 4 k(3) show ?thesis by (simp add: nth_Swap [OF il jl] del: One_nat_def)
    qed
  qed
  have B: "consistencySeq (?h ! ((?i - 1) div 2)) \<le> consistencySeq (?h ! k)"
    if k: "0 < k" "k < length ?h" "(k - 1) div 2 = ?i" "0 < ?i" for k
  proof -
    have kl: "k < length h" using k(2) by simp
    have pi: "(?i - 1) div 2 \<noteq> ?i" "(?i - 1) div 2 \<noteq> j" using k(4) ij by arith+
    have ki: "k \<noteq> ?i" using k(1,3) by arith
    have gp: "consistencySeq (h ! ((?i - 1) div 2)) \<le> consistencySeq (h ! ?i)"
      using ij by (intro up_invD1 [OF swap.prems k(4) il]) simp
    show ?thesis
    proof (cases "k = j")
      case True
      with pi ij gp show ?thesis by (simp add: nth_Swap [OF il jl] del: One_nat_def)
    next
      case False
      have "consistencySeq (h ! ((k - 1) div 2)) \<le> consistencySeq (h ! k)"
        by (rule up_invD1 [OF swap.prems k(1) kl False])
      with gp k(3) have "consistencySeq (h ! ((?i - 1) div 2)) \<le> consistencySeq (h ! k)"
        by simp
      with False ki pi show ?thesis by (simp add: nth_Swap [OF il jl] del: One_nat_def)
    qed
  qed
  have "up_inv ?h ?i"
    using il A B unfolding up_inv_def by simp
  then have "is_heap (up ?h ?i)" by (rule swap.IH)
  then show ?case using swap.hyps by (simp add: up_step)
qed


lemma heap_Push_heap:
  assumes "is_heap h"
  shows "is_heap (heap_Push h x)"
proof -
  have "up_inv (h @ [x]) (length h)"
    unfolding up_inv_def
  proof (intro conjI allI impI)
    show "length h < length (h @ [x])" by simp
  next
    fix k assume k: "0 < k \<and> k < length (h @ [x]) \<and> k \<noteq> length h"
    then have kl: "k < length h" and pl: "(k - 1) div 2 < length h" by auto
    from assms k kl have "consistencySeq (h ! ((k - 1) div 2)) \<le> consistencySeq (h ! k)"
      by (simp add: is_heap_upto heap_upto_def)
    with kl pl show "consistencySeq ((h @ [x]) ! ((k - 1) div 2)) \<le> consistencySeq ((h @ [x]) ! k)"
      by (simp add: nth_append)
  next
    fix k assume "0 < k \<and> k < length (h @ [x]) \<and> (k - 1) div 2 = length h \<and> 0 < length h"
    then have False by auto
    then show "consistencySeq ((h @ [x]) ! ((length h - 1) div 2)) \<le> consistencySeq ((h @ [x]) ! k)" ..
  qed
  then show ?thesis
    by (simp add: heap_Push_def Push_def Let_def up_heap)
qed


lemma heap_root_min:
  assumes "is_heap h"
  shows "k < length h \<Longrightarrow> consistencySeq (h ! 0) \<le> consistencySeq (h ! k)"
proof (induction k rule: less_induct)
  case (less k)
  show ?case
  proof (cases "k = 0")
    case True
    then show ?thesis by simp
  next
    case False
    then have p: "(k - 1) div 2 < k" by arith
    with less.prems have "consistencySeq (h ! 0) \<le> consistencySeq (h ! ((k - 1) div 2))"
      by (intro less.IH) auto
    also have "\<dots> \<le> consistencySeq (h ! k)"
      using assms False less.prems by (simp add: is_heap_upto heap_upto_def)
    finally show ?thesis .
  qed
qed

lemma heap_Pop_None: "(heap_Pop h = None) = (h = [])"
  by (simp add: heap_Pop_def Pop_def Let_def del: length_0_conv) auto

lemma Swap_Nil [simp]: "(Swap h i j = []) = (h = [])"
  by (simp add: Swap_def)

lemma down_Nil [simp]: "(down h i n = []) = (h = [])"
  by (metis length_0_conv length_down)

lemma is_heapD:
  "is_heap h \<Longrightarrow> 0 < k \<Longrightarrow> k < length h \<Longrightarrow>
   consistencySeq (h ! ((k - 1) div 2)) \<le> consistencySeq (h ! k)"
  by (simp add: is_heap_upto heap_upto_def)

lemma heap_Pop_nonempty:
  "h \<noteq> [] \<Longrightarrow>
   heap_Pop h =
     Some (down (Swap h 0 (length h - 1)) 0 (length h - 1) ! (length h - 1),
           take (length h - 1) (down (Swap h 0 (length h - 1)) 0 (length h - 1)))"
  by (simp add: heap_Pop_def Pop_def Let_def)

lemma heap_Pop_Some:
  assumes "is_heap h" and "heap_Pop h = Some (x, h')"
  shows "x = h ! 0" and "is_heap h'" and "mset h = add_mset x (mset h')"
    and "\<forall>y\<in>set h'. consistencySeq x \<le> consistencySeq y"
proof -
  let ?n = "length h - 1"
  let ?h1 = "Swap h 0 ?n"
  let ?h2 = "down ?h1 0 ?n"
  from assms(2) have ne: "h \<noteq> []" by (auto simp: heap_Pop_def)
  then have nl: "?n < length h" and zl: "0 < length h" by auto
  from assms(2) heap_Pop_nonempty [OF ne] have x: "x = ?h2 ! ?n" and h': "h' = take ?n ?h2"
    by simp_all
  have "down_inv ?h1 0 ?n"
    unfolding down_inv_def
  proof (intro conjI allI impI)
    show "?n \<le> length ?h1" by simp
  next
    fix k assume k: "0 < k \<and> k < ?n \<and> (k - 1) div 2 \<noteq> 0"
    then have "consistencySeq (h ! ((k - 1) div 2)) \<le> consistencySeq (h ! k)"
      by (intro is_heapD [OF assms(1)]) auto
    moreover have "(k - 1) div 2 \<noteq> ?n" using k by arith
    ultimately show "consistencySeq (?h1 ! ((k - 1) div 2)) \<le> consistencySeq (?h1 ! k)"
      using k by (simp add: nth_Swap [OF zl nl] del: One_nat_def)
  next
    fix k assume "0 < k \<and> k < ?n \<and> (k - 1) div 2 = 0 \<and> (0::nat) < 0"
    then show "consistencySeq (?h1 ! ((0 - 1) div 2)) \<le> consistencySeq (?h1 ! k)" by simp
  qed
  then have hu: "heap_upto ?h2 ?n" by (rule down_heap)
  have "?h2 ! ?n = ?h1 ! ?n" by (rule down_outside) simp_all
  then show x0: "x = h ! 0" using x by (simp add: nth_Swap [OF zl nl] del: One_nat_def)
  show hh: "is_heap h'"
    using hu by (auto simp: h' is_heap_upto heap_upto_def)
  have "mset ?h2 = mset h" by (simp add: mset_down mset_Swap [OF zl nl] del: One_nat_def)
  moreover have "?h2 = take ?n ?h2 @ [?h2 ! ?n]"
    using nl by (metis Suc_diff_1 length_down length_Swap take_Suc_conv_app_nth take_all_iff le_refl zl)
  ultimately have "mset h = mset (take ?n ?h2 @ [?h2 ! ?n])" by simp
  then show ms: "mset h = add_mset x (mset h')" by (simp add: x h')
  show "\<forall>y\<in>set h'. consistencySeq x \<le> consistencySeq y"
  proof
    fix y assume "y \<in> set h'"
    then have "y \<in># mset h" using ms by simp
    then have "y \<in> set h" by simp
    then obtain k where "k < length h" "y = h ! k" by (auto simp: in_set_conv_nth)
    then show "consistencySeq x \<le> consistencySeq y"
      using heap_root_min [OF assms(1)] x0 by simp
  qed
qed

lemma heap_Pop_length:
  "heap_Pop h = Some (x, h') \<Longrightarrow> Suc (length h') = length h"
proof -
  assume a: "heap_Pop h = Some (x, h')"
  then have ne: "h \<noteq> []" by (auto simp: heap_Pop_def)
  from a heap_Pop_nonempty [OF ne]
  have "h' = take (length h - 1) (down (Swap h 0 (length h - 1)) 0 (length h - 1))" by simp
  with ne show ?thesis by simp
qed

subsection \<open>Applying the batch\<close>

text \<open>
  The loop of \<open>applyBatchUnlocked\<close>: while the queue is not empty and the request at
  its root has \<open>consistencySeq \<le> seqMaxBatch\<close>, pop it and close its \<open>doneCh\<close>. The
  result is the signals in the order they are given and the queue that remains.
\<close>

function wakeWaiters :: "uint64 \<Rightarrow> cwrQueue \<Rightarrow> signal list \<times> cwrQueue" where
  "wakeWaiters smb q =
     (if length q > 0 \<and> consistencySeq (q ! 0) \<le> smb then
        (case heap_Pop q of
           None \<Rightarrow> ([], q)
         | Some (cwr, q') \<Rightarrow>
             (let (sigs, q'') = wakeWaiters smb q' in ((cwr, None) # sigs, q'')))
      else ([], q))"
  by pat_completeness auto
termination
proof (relation "measure (\<lambda>(smb, q). length q)")
  show "wf (measure (\<lambda>(smb, q). length q))" by simp
next
  fix smb :: uint64 and q x2 x y
  assume "heap_Pop q = Some x2" and "(x, y) = x2"
  then have "Suc (length y) = length q" by (intro heap_Pop_length [of q x y]) simp
  then show "((smb, y), smb, q) \<in> measure (\<lambda>(smb, q). length q)" by simp
qed

declare wakeWaiters.simps [simp del]

definition applyBatchUnlocked ::
  "bleve_index \<Rightarrow> BleveDestPartition \<Rightarrow>
     error option \<times> bleve_index \<times> BleveDestPartition \<times> signal list" where
  "applyBatchUnlocked bindex t =
     (case IndexBatch bindex (batch t) of
        (Some err, bindex1) \<Rightarrow> (Some err, bindex1, t, [])
      | (None, bindex1) \<Rightarrow>
          (let t1 = t\<lparr>seqMaxBatch := seqMax t\<rparr>;
               (sigs, q) = wakeWaiters (seqMaxBatch t1) (cwrQueue t1);
               t2 = t1\<lparr>cwrQueue := q\<rparr>;
               t3 = t2\<lparr>batch := []\<rparr>;
               t4 = (case buf t3 of None \<Rightarrow> t3 | Some b \<Rightarrow> t3\<lparr>buf := Some (take 0 b)\<rparr>)
           in (None, bindex1, t4, sigs)))"

definition updateSeqUnlocked ::
  "bleve_index \<Rightarrow> uint64 \<Rightarrow> BleveDestPartition \<Rightarrow>
     error option \<times> bleve_index \<times> BleveDestPartition \<times> signal list" where
  "updateSeqUnlocked bindex seq t =
     (let t1 = (if seqMax t < seq then
                  t\<lparr>seqMax := seq, seqMaxBuf := PutUint64 seq,
                    batch := batch t @ [SetInternal (string_bytes (partition t)) (PutUint64 seq)]\<rparr>
                else t)
      in if length (slice_bytes (buf t1)) < BLEVE_DEST_APPLY_BUF_SIZE_BYTES \<and>
            seq < seqSnapEnd t1
         then (None, bindex, t1, [])
         else applyBatchUnlocked bindex t1)"

text \<open>
  \<open>appendToBufUnlocked\<close> returns the suffix of \<open>buf\<close> holding the copy of \<open>b\<close>, that is
  \<open>b\<close> by value, with the partition whose \<open>buf\<close> has grown.
\<close>

definition appendToBufUnlocked ::
  "bytes \<Rightarrow> BleveDestPartition \<Rightarrow> bytes \<times> BleveDestPartition" where
  "appendToBufUnlocked b t =
     (if length b \<le> 0 then (b, t)
      else
        let t1 = (if buf t = None then t\<lparr>buf := Some []\<rparr> else t);
            t2 = t1\<lparr>buf := Some (slice_bytes (buf t1) @ b)\<rparr>
        in (drop (length (slice_bytes (buf t2)) - length b) (slice_bytes (buf t2)), t2))"

definition OnDataUpdate ::
  "bleve_index \<Rightarrow> bytes \<Rightarrow> uint64 \<Rightarrow> bytes \<Rightarrow> BleveDestPartition \<Rightarrow>
     error option \<times> bleve_index \<times> BleveDestPartition \<times> signal list" where
  "OnDataUpdate bindex key seq val t =
     (let (bufVal, t1) = appendToBufUnlocked val t;
          t2 = t1\<lparr>batch := batch t1 @ [Index (bytes_string key) bufVal]\<rparr>
      in updateSeqUnlocked bindex seq t2)"

definition OnDataDelete ::
  "bleve_index \<Rightarrow> bytes \<Rightarrow> uint64 \<Rightarrow> BleveDestPartition \<Rightarrow>
     error option \<times> bleve_index \<times> BleveDestPartition \<times> signal list" where
  "OnDataDelete bindex key seq t =
     (let t1 = t\<lparr>batch := batch t @ [Delete (bytes_string key)]\<rparr>
      in updateSeqUnlocked bindex seq t1)"

definition OnSnapshotStart ::
  "bleve_index \<Rightarrow> uint64 \<Rightarrow> uint64 \<Rightarrow> BleveDestPartition \<Rightarrow>
     error option \<times> bleve_index \<times> BleveDestPartition \<times> signal list" where
  "OnSnapshotStart bindex snapStart snapEnd t =
     (case applyBatchUnlocked bindex t of
        (Some err, bindex1, t1, sigs) \<Rightarrow> (Some err, bindex1, t1, sigs)
      | (None, bindex1, t1, sigs) \<Rightarrow> (None, bindex1, t1\<lparr>seqSnapEnd := snapEnd\<rparr>, sigs))"

text \<open>
  \<open>append(t.lastOpaque[0:0], value...)\<close> is \<open>nil\<close> only when \<open>lastOpaque\<close> is \<open>nil\<close> and
  \<open>value\<close> is empty.
\<close>

definition SetOpaque ::
  "bleve_index \<Rightarrow> bytes \<Rightarrow> BleveDestPartition \<Rightarrow>
     error option \<times> bleve_index \<times> BleveDestPartition \<times> signal list" where
  "SetOpaque bindex val t =
     (let t1 = t\<lparr>lastOpaque := (if lastOpaque t = None \<and> val = [] then None else Some val)\<rparr>;
          t2 = t1\<lparr>batch := batch t1 @
                 [SetInternal (string_bytes (partitionOpaque t1)) (slice_bytes (lastOpaque t1))]\<rparr>
      in (None, bindex, t2, []))"

text \<open>
  \<open>GetOpaque\<close> returns \<open>(value, seq, err)\<close>: \<open>Inl err\<close> for \<open>(nil, 0, err)\<close>, otherwise
  \<open>Inr (value, seq)\<close>. \<open>append([]byte(nil), value...)\<close> is \<open>nil\<close> when \<open>value\<close> is empty.
\<close>

definition GetOpaque ::
  "bleve_index \<Rightarrow> BleveDestPartition \<Rightarrow>
     (error + bytes option \<times> uint64) \<times> bleve_index \<times> BleveDestPartition" where
  "GetOpaque bindex t =
     (let (r1, bindex1, t1) =
            (if lastOpaque t = None then
               (case GetInternal bindex (string_bytes (partitionOpaque t)) of
                  (Inl err, bindex') \<Rightarrow> (Some err, bindex', t)
                | (Inr val, bindex') \<Rightarrow>
                    (None, bindex', t\<lparr>lastOpaque := (if val = [] then None else Some val)\<rparr>))
             else (None, bindex, t))
      in case r1 of
           Some err \<Rightarrow> (Inl err, bindex1, t1)
         | None \<Rightarrow>
             if seqMax t1 \<le> 0 then
               (case GetInternal bindex1 (string_bytes (partition t1)) of
                  (Inl err, bindex2) \<Rightarrow> (Inl err, bindex2, t1)
                | (Inr b, bindex2) \<Rightarrow>
                    if length b \<le> 0 then (Inr (lastOpaque t1, 0), bindex2, t1)
                    else if length b \<noteq> 8 then (Inl UnexpectedSeqMaxSize, bindex2, t1)
                    else
                      let t2 = t1\<lparr>seqMax := Uint64 (take 8 b)\<rparr>;
                          t3 = t2\<lparr>seqMaxBuf := PutUint64 (seqMax t2)\<rparr>
                      in (Inr (lastOpaque t3, seqMax t3), bindex2, t3))
             else (Inr (lastOpaque t1, seqMax t1), bindex1, t1))"

subsection \<open>The worker of a partition\<close>

text \<open>
  The worker is modelled as handling a request as soon as \<open>ConsistencyWait\<close> has sent it,
  so the caller of that request is in its \<open>select\<close> on \<open>doneCh\<close> when the worker answers
  it. \<open>run_recv\<close> is the body of the loop of \<open>BleveDestPartition.run\<close> for one request
  received from \<open>cwrCh\<close>.

  A queued request stays in the queue until \<open>heap.Pop\<close> removes it. Meanwhile its caller
  may have returned from \<open>ConsistencyWait\<close> on its cancel signal, and then nothing
  receives from its \<open>doneCh\<close>, a channel made without a buffer. \<open>run_closed\<close> is what the
  worker does once \<open>cwrCh\<close> is closed: for each request of the queue, in the order of
  the slice, \<open>cwr.doneCh <- err\<close> and \<open>close(cwr.doneCh)\<close>. The send completes when the
  caller receives it. \<open>gone\<close> is the set of the \<open>doneCh\<close> whose callers have returned on
  their cancel signal: at the first such request the send never completes, and the
  requests after it in the slice are not reached.
\<close>

definition run_recv ::
  "BleveDestPartition \<Rightarrow> consistencyWaitReq \<Rightarrow> BleveDestPartition \<times> signal list" where
  "run_recv t cwr =
     (if consistencyLevel cwr = '''' then (t, [(cwr, None)])
      else if consistencyLevel cwr = ''at_plus'' then
        (if consistencySeq cwr > seqMaxBatch t
         then (t\<lparr>cwrQueue := heap_Push (cwrQueue t) cwr\<rparr>, [])
         else (t, [(cwr, None)]))
      else (t, [(cwr, Some (ConsistencyUnsupported (consistencyLevel cwr)))]))"

fun sendClosed :: "nat set \<Rightarrow> cwrQueue \<Rightarrow> signal list" where
  "sendClosed gone [] = []"
| "sendClosed gone (cwr # q) =
     (if doneCh cwr \<in> gone then []
      else (cwr, Some ConsistencyClosed) # sendClosed gone q)"

definition run_closed :: "nat set \<Rightarrow> BleveDestPartition \<Rightarrow> signal list" where
  "run_closed gone t = sendClosed gone (cwrQueue t)"

subsection \<open>The loop that wakes the waiters\<close>

lemma wakeWaiters_stop:
  "\<not> (length q > 0 \<and> consistencySeq (q ! 0) \<le> smb) \<Longrightarrow> wakeWaiters smb q = ([], q)"
  by (subst wakeWaiters.simps) auto

lemma wakeWaiters_step:
  "length q > 0 \<Longrightarrow> consistencySeq (q ! 0) \<le> smb \<Longrightarrow> heap_Pop q = Some (cwr, q') \<Longrightarrow>
   wakeWaiters smb q = ((cwr, None) # fst (wakeWaiters smb q'), snd (wakeWaiters smb q'))"
  by (subst wakeWaiters.simps) (simp add: case_prod_unfold Let_def)

lemma wakeWaiters_props:
  "is_heap q \<Longrightarrow>
   is_heap (snd (wakeWaiters smb q)) \<and>
   mset (map fst (fst (wakeWaiters smb q))) + mset (snd (wakeWaiters smb q)) = mset q \<and>
   (\<forall>s\<in>set (fst (wakeWaiters smb q)). snd s = None \<and> consistencySeq (fst s) \<le> smb) \<and>
   (\<forall>y\<in>set (snd (wakeWaiters smb q)). smb < consistencySeq y) \<and>
   sorted (map (\<lambda>s. consistencySeq (fst s)) (fst (wakeWaiters smb q)))"
proof (induction "length q" arbitrary: q rule: less_induct)
  case less
  show ?case
  proof (cases "length q > 0 \<and> consistencySeq (q ! 0) \<le> smb")
    case False
    have "\<forall>y\<in>set q. smb < consistencySeq y"
    proof
      fix y assume "y \<in> set q"
      then obtain k where k: "k < length q" "y = q ! k" by (auto simp: in_set_conv_nth)
      with False have "smb < consistencySeq (q ! 0)" by auto
      also have "\<dots> \<le> consistencySeq (q ! k)" by (rule heap_root_min [OF less.prems k(1)])
      finally show "smb < consistencySeq y" using k by simp
    qed
    with less.prems show ?thesis by (simp add: wakeWaiters_stop [OF False])
  next
    case True
    then have ne: "q \<noteq> []" by auto
    then obtain cwr q' where pop: "heap_Pop q = Some (cwr, q')"
      using heap_Pop_None [of q] by (cases "heap_Pop q") auto
    note P = heap_Pop_Some [OF less.prems pop]
    have len: "length q' < length q" using heap_Pop_length [OF pop] by simp
    note IH = less.hyps [OF len P(2)]
    have eq: "wakeWaiters smb q = ((cwr, None) # fst (wakeWaiters smb q'), snd (wakeWaiters smb q'))"
      using True pop by (intro wakeWaiters_step) auto
    have le: "consistencySeq cwr \<le> smb" using True P(1) by simp
    have "consistencySeq cwr \<le> consistencySeq (fst s)" if "s \<in> set (fst (wakeWaiters smb q'))" for s
    proof -
      from that have "fst s \<in># mset (map fst (fst (wakeWaiters smb q')))" by simp
      then have "fst s \<in># mset q'" using IH by (metis union_iff)
      then show ?thesis using P(4) by simp
    qed
    then have srt: "sorted (map (\<lambda>s. consistencySeq (fst s)) ((cwr, None) # fst (wakeWaiters smb q')))"
      using IH by simp
    show ?thesis
      unfolding eq using IH le srt P(3) by simp
  qed
qed


text \<open>
  An index as \<open>bleve.New\<close> creates it, with no failure injected, and a request as
  \<open>ConsistencyWait\<close> creates it.
\<close>

definition newIndex :: bleve_index where
  "newIndex = \<lparr>docs = Map.empty, internal = Map.empty, batchFault = None,
                getFault = (\<lambda>k. None), closeFault = None, calls = []\<rparr>"

definition newWaitReq :: "string \<Rightarrow> uint64 \<Rightarrow> nat option \<Rightarrow> nat \<Rightarrow> consistencyWaitReq" where
  "newWaitReq level seq cancel done =
     \<lparr>consistencyLevel = level, consistencySeq = seq, cancelCh = cancel, doneCh = done\<rparr>"

lemma wakeWaiters_popped:
  assumes "is_heap q"
  shows "mset (map fst (fst (wakeWaiters smb q))) = filter_mset (\<lambda>c. consistencySeq c \<le> smb) (mset q)"
    and "mset (snd (wakeWaiters smb q)) = filter_mset (\<lambda>c. \<not> consistencySeq c \<le> smb) (mset q)"
proof -
  let ?A = "mset (map fst (fst (wakeWaiters smb q)))"
  let ?B = "mset (snd (wakeWaiters smb q))"
  note W = wakeWaiters_props [OF assms, of smb]
  have sum: "?A + ?B = mset q" using W by simp
  have A: "filter_mset (\<lambda>c. consistencySeq c \<le> smb) ?A = ?A"
    using W by (intro filter_mset_eq_conv [THEN iffD2]) auto
  have B: "filter_mset (\<lambda>c. consistencySeq c \<le> smb) ?B = {#}"
    using W by auto
  have A': "filter_mset (\<lambda>c. \<not> consistencySeq c \<le> smb) ?A = {#}"
    using W by auto
  have B': "filter_mset (\<lambda>c. \<not> consistencySeq c \<le> smb) ?B = ?B"
    using W by (intro filter_mset_eq_conv [THEN iffD2]) auto
  have "filter_mset (\<lambda>c. consistencySeq c \<le> smb) (mset q) =
        filter_mset (\<lambda>c. consistencySeq c \<le> smb) (?A + ?B)" by (simp only: sum)
  then show "?A = filter_mset (\<lambda>c. consistencySeq c \<le> smb) (mset q)"
    using A B by simp
  have "filter_mset (\<lambda>c. \<not> consistencySeq c \<le> smb) (mset q) =
        filter_mset (\<lambda>c. \<not> consistencySeq c \<le> smb) (?A + ?B)" by (simp only: sum)
  then show "?B = filter_mset (\<lambda>c. \<not> consistencySeq c \<le> smb) (mset q)"
    using A' B' by simp
qed

lemma applyBatchUnlocked_ok:
  "batchFault bindex = None \<Longrightarrow>
   applyBatchUnlocked bindex t =
     (None, foldl applyOp (bindex\<lparr>calls := calls bindex @ [CallBatch (batch t)]\<rparr>) (batch t),
      t\<lparr>seqMaxBatch := seqMax t,
        cwrQueue := snd (wakeWaiters (seqMax t) (cwrQueue t)),
        batch := [],
        buf := (case buf t of None \<Rightarrow> None | Some b \<Rightarrow> Some [])\<rparr>,
      fst (wakeWaiters (seqMax t) (cwrQueue t)))"
  by (cases "buf t") (simp_all add: applyBatchUnlocked_def IndexBatch_def Let_def case_prod_unfold)

lemma applyBatchUnlocked_fail:
  "batchFault bindex = Some e \<Longrightarrow>
   applyBatchUnlocked bindex t = (Some e, bindex\<lparr>calls := calls bindex @ [CallBatch (batch t)]\<rparr>, t, [])"
  by (simp add: applyBatchUnlocked_def IndexBatch_def Let_def)

text \<open>
  Claim C1. When the batch apply of the underlying index returns no error,
  \<open>applyBatchUnlocked\<close> returns no error and afterwards \<open>seqMaxBatch\<close> is the \<open>seqMax\<close> held
  at the call; the requests signalled are exactly the queued requests whose
  \<open>consistencySeq\<close> is at most the new \<open>seqMaxBatch\<close>, each is signalled done without an
  error, and they are signalled in non-decreasing order of \<open>consistencySeq\<close>; the queue
  keeps exactly the other requests (and stays a heap); the pending batch is a fresh
  empty batch, the value buffer has length 0, and \<open>seqSnapEnd\<close> is unchanged. The queue
  of a partition is a heap whenever it is only changed by \<open>heap.Push\<close> and \<open>heap.Pop\<close>, as
  the source does.
\<close>

theorem applyBatch_success:
  assumes "batchFault bindex = None" and "is_heap (cwrQueue t)"
  shows "case applyBatchUnlocked bindex t of (err, bindex', t', sigs) \<Rightarrow>
     err = None \<and>
     seqMaxBatch t' = seqMax t \<and>
     mset (map fst sigs) =
       filter_mset (\<lambda>c. consistencySeq c \<le> seqMaxBatch t') (mset (cwrQueue t)) \<and>
     (\<forall>s\<in>set sigs. snd s = None) \<and>
     sorted (map (\<lambda>s. consistencySeq (fst s)) sigs) \<and>
     mset (cwrQueue t') =
       filter_mset (\<lambda>c. \<not> consistencySeq c \<le> seqMaxBatch t') (mset (cwrQueue t)) \<and>
     is_heap (cwrQueue t') \<and>
     batch t' = [] \<and>
     length (slice_bytes (buf t')) = 0 \<and>
     seqSnapEnd t' = seqSnapEnd t"
proof -
  note W = wakeWaiters_props [OF assms(2), of "seqMax t"]
  note F = wakeWaiters_popped [OF assms(2), of "seqMax t"]
  have b: "length (slice_bytes (case buf t of None \<Rightarrow> None | Some b \<Rightarrow> Some [])) = 0"
    by (cases "buf t") (simp_all add: slice_bytes_def)
  show ?thesis
    unfolding applyBatchUnlocked_ok [OF assms(1)]
    using W F b by simp
qed

section \<open>The staged sequence number, failed applies and the wait intake\<close>

text \<open>A partition in the middle of a snapshot, with three queued waits, used in the examples.\<close>

definition samplePartition :: BleveDestPartition where
  "samplePartition =
     (newBleveDestPartition ''0'')
       \<lparr>seqMax := 5, seqSnapEnd := 7, buf := Some [1, 2], batch := [Index ''k'' [1, 2]],
        cwrQueue := [newWaitReq ''at_plus'' 3 None 1, newWaitReq ''at_plus'' 9 None 2,
                     newWaitReq ''at_plus'' 4 None 3]\<rparr>"

lemma applyOp_calls [simp]: "calls (applyOp ix a) = calls ix"
  by (cases a) simp_all

lemma foldl_applyOp_calls [simp]: "calls (foldl applyOp ix b) = calls ix"
  by (induction b arbitrary: ix) simp_all

text \<open>
  Claim C5. When the batch apply of the underlying index fails with an error,
  \<open>applyBatchUnlocked\<close> returns that error and the partition is unchanged: the pending
  batch is not replaced, and \<open>seqMaxBatch\<close>, the value buffer, the queue of waits and
  \<open>seqSnapEnd\<close> keep their values; no waiter is signalled and the index keeps its
  contents. A later attempt hands the same batch to the index.
\<close>

theorem applyBatch_failure:
  assumes "batchFault bindex = Some e"
  shows "case applyBatchUnlocked bindex t of (err, bindex', t', sigs) \<Rightarrow>
     err = Some e \<and> t' = t \<and> sigs = [] \<and>
     docs bindex' = docs bindex \<and> internal bindex' = internal bindex \<and>
     (\<forall>bindex2. last (calls (fst (snd (applyBatchUnlocked bindex2 t')))) = CallBatch (batch t))"
proof -
  have "last (calls (fst (snd (applyBatchUnlocked bindex2 t)))) = CallBatch (batch t)" for bindex2
  proof (cases "batchFault bindex2")
    case None
    then show ?thesis by (simp add: applyBatchUnlocked_ok)
  next
    case (Some e2)
    then show ?thesis by (simp add: applyBatchUnlocked_fail)
  qed
  then show ?thesis
    by (simp add: applyBatchUnlocked_fail [OF assms])
qed

lemma applyBatchUnlocked_err:
  "fst (applyBatchUnlocked bindex t) = batchFault bindex"
  by (cases "batchFault bindex") (simp_all add: applyBatchUnlocked_ok applyBatchUnlocked_fail)

text \<open>
  Claim C10. If the batch apply at the start of \<open>OnSnapshotStart\<close> fails, its error is
  returned and \<open>seqSnapEnd\<close> keeps its value (the partition is unchanged); if it succeeds,
  \<open>OnSnapshotStart\<close> returns no error and \<open>seqSnapEnd\<close> is \<open>snapEnd\<close>.
\<close>

theorem OnSnapshotStart_seqSnapEnd:
  "(\<forall>err. fst (applyBatchUnlocked bindex t) = Some err \<longrightarrow>
      (case OnSnapshotStart bindex snapStart snapEnd t of
         (r, bindex', t', sigs) \<Rightarrow> r = Some err \<and> seqSnapEnd t' = seqSnapEnd t \<and> t' = t)) \<and>
   (fst (applyBatchUnlocked bindex t) = None \<longrightarrow>
      (case OnSnapshotStart bindex snapStart snapEnd t of
         (r, bindex', t', sigs) \<Rightarrow> r = None \<and> seqSnapEnd t' = snapEnd))"
proof (cases "batchFault bindex")
  case None
  then show ?thesis
    by (simp add: OnSnapshotStart_def applyBatchUnlocked_ok)
next
  case (Some e)
  then show ?thesis
    by (simp add: OnSnapshotStart_def applyBatchUnlocked_fail)
qed

lemma PutUint64_length [simp]: "length (PutUint64 v) = 8"
  by (simp add: PutUint64_def)




lemma byte_bit:
  "bit (push_bit k (ucast (ucast (drop_bit k (v :: uint64)) :: byte)) :: uint64) n \<longleftrightarrow>
     k \<le> n \<and> n < k + 8 \<and> n < 64 \<and> bit v n"
  by (auto simp: bit_simps dest: bit_imp_le_length)

lemma byte_bit0:
  "bit (ucast (ucast (v :: uint64) :: byte) :: uint64) n \<longleftrightarrow> n < 8 \<and> bit v n"
  by (auto simp: bit_simps)

lemma Uint64_PutUint64 [simp]: "Uint64 (PutUint64 v) = v"
proof (rule bit_word_eqI)
  fix n :: nat
  assume "n < LENGTH(64)"
  then have n: "n < 64" by simp
  have cover: "n < 8 \<or> 8 \<le> n \<and> n < 16 \<or> 16 \<le> n \<and> n < 24 \<or> 24 \<le> n \<and> n < 32 \<or>
      32 \<le> n \<and> n < 40 \<or> 40 \<le> n \<and> n < 48 \<or> 48 \<le> n \<and> n < 56 \<or> 56 \<le> n \<and> n < 64"
    using n by arith
  have "bit (Uint64 (PutUint64 v)) n \<longleftrightarrow>
     (n < 8 \<or> 8 \<le> n \<and> n < 16 \<or> 16 \<le> n \<and> n < 24 \<or> 24 \<le> n \<and> n < 32 \<or>
      32 \<le> n \<and> n < 40 \<or> 40 \<le> n \<and> n < 48 \<or> 48 \<le> n \<and> n < 56 \<or> 56 \<le> n \<and> n < 64) \<and> bit v n"
    unfolding Uint64_def PutUint64_def
    using n by (simp add: bit_or_iff byte_bit byte_bit0) blast
  with cover show "bit (Uint64 (PutUint64 v)) n = bit v n" by simp
qed


text \<open>
  Claim C2. \<open>updateSeqUnlocked seq\<close>: if \<open>seq > seqMax\<close> then \<open>seqMax\<close> becomes \<open>seq\<close> and a
  write of the 8-byte big-endian encoding of \<open>seqMax\<close> under the key \<open><partition>\<close> is
  appended to the pending batch; otherwise \<open>seqMax\<close> and the batch are unchanged. With
  the partition \<open>t1\<close> so obtained, the call returns without applying the batch (the index
  receives no call) if and only if the buffered value bytes are fewer than 200000 and
  \<open>seq < seqSnapEnd\<close>; otherwise its result is that of \<open>applyBatchUnlocked\<close> on \<open>t1\<close>, which
  hands the batch of \<open>t1\<close> to the index.
\<close>

theorem updateSeq_stage_and_apply:
  "let t1 = (if seqMax t < seq
             then t\<lparr>seqMax := seq, seqMaxBuf := PutUint64 seq,
                    batch := batch t @ [SetInternal (string_bytes (partition t)) (PutUint64 seq)]\<rparr>
             else t);
       r = updateSeqUnlocked bindex seq t
   in (length (slice_bytes (buf t)) < 200000 \<and> seq < seqSnapEnd t \<longrightarrow>
         r = (None, bindex, t1, [])) \<and>
      (\<not> (length (slice_bytes (buf t)) < 200000 \<and> seq < seqSnapEnd t) \<longrightarrow>
         r = applyBatchUnlocked bindex t1 \<and>
         calls (fst (snd r)) = calls bindex @ [CallBatch (batch t1)]) \<and>
      (calls (fst (snd r)) = calls bindex \<longleftrightarrow>
         length (slice_bytes (buf t)) < 200000 \<and> seq < seqSnapEnd t) \<and>
      (seq > seqMax t \<longrightarrow>
         seqMax t1 = seq \<and> length (PutUint64 (seqMax t1)) = 8 \<and>
         Uint64 (PutUint64 (seqMax t1)) = seqMax t1 \<and>
         batch t1 = batch t @ [SetInternal (string_bytes (partition t)) (PutUint64 (seqMax t1))]) \<and>
      (\<not> seq > seqMax t \<longrightarrow> seqMax t1 = seqMax t \<and> batch t1 = batch t)"
proof -
  have c: "calls (fst (snd (applyBatchUnlocked ix u))) = calls ix @ [CallBatch (batch u)]" for ix u
    by (cases "batchFault ix") (simp_all add: applyBatchUnlocked_ok applyBatchUnlocked_fail)
  show ?thesis
    by (auto simp: Let_def updateSeqUnlocked_def BLEVE_DEST_APPLY_BUF_SIZE_BYTES_def c)
qed



lemma sample_is_heap: "is_heap (cwrQueue samplePartition)"
  unfolding samplePartition_def by simp code_simp

lemma sample_wake:
  "wakeWaiters 5 (cwrQueue samplePartition) =
     ([(newWaitReq ''at_plus'' 3 None 1, None), (newWaitReq ''at_plus'' 4 None 3, None)],
      [newWaitReq ''at_plus'' 9 None 2])"
  unfolding samplePartition_def by simp code_simp

theorem applyBatch_success_witness:
  "batchFault newIndex = None \<and> is_heap (cwrQueue samplePartition) \<and>
   (case applyBatchUnlocked newIndex samplePartition of
      (err, bindex', t', sigs) \<Rightarrow>
        err = None \<and> seqMaxBatch t' = 5 \<and>
        sigs = [(newWaitReq ''at_plus'' 3 None 1, None), (newWaitReq ''at_plus'' 4 None 3, None)] \<and>
        cwrQueue t' = [newWaitReq ''at_plus'' 9 None 2] \<and>
        batch t' = [] \<and> buf t' = Some [] \<and> seqSnapEnd t' = 7)"
proof -
  have f: "batchFault newIndex = None" by (simp add: newIndex_def)
  have s: "seqMax samplePartition = 5" "seqSnapEnd samplePartition = 7"
    "buf samplePartition = Some [1, 2]"
    by (simp_all add: samplePartition_def)
  from applyBatch_success [OF f sample_is_heap]
  have "case applyBatchUnlocked newIndex samplePartition of
      (err, bindex', t', sigs) \<Rightarrow>
        err = None \<and> seqMaxBatch t' = 5 \<and> batch t' = [] \<and> seqSnapEnd t' = 7"
    by (auto simp: s)
  moreover have "case applyBatchUnlocked newIndex samplePartition of
      (err, bindex', t', sigs) \<Rightarrow>
        sigs = [(newWaitReq ''at_plus'' 3 None 1, None), (newWaitReq ''at_plus'' 4 None 3, None)] \<and>
        cwrQueue t' = [newWaitReq ''at_plus'' 9 None 2] \<and> buf t' = Some []"
    by (simp add: applyBatchUnlocked_ok [OF f] s sample_wake)
  ultimately show ?thesis
    using f sample_is_heap by (auto simp: case_prod_unfold)
qed

theorem applyBatch_failure_witness:
  "batchFault (newIndex\<lparr>batchFault := Some (EngineError ''disk full'')\<rparr>) =
     Some (EngineError ''disk full'') \<and>
   (case applyBatchUnlocked (newIndex\<lparr>batchFault := Some (EngineError ''disk full'')\<rparr>)
           samplePartition of
      (err, bindex', t', sigs) \<Rightarrow>
        err = Some (EngineError ''disk full'') \<and> sigs = [] \<and> t' = samplePartition \<and>
        internal bindex' = Map.empty \<and> docs bindex' = Map.empty)"
proof -
  let ?ix = "newIndex\<lparr>batchFault := Some (EngineError ''disk full'')\<rparr>"
  have f: "batchFault ?ix = Some (EngineError ''disk full'')" by simp
  have "internal ?ix = Map.empty" "docs ?ix = Map.empty" by (simp_all add: newIndex_def)
  then show ?thesis
    using applyBatch_failure [OF f, of samplePartition] f
    by (auto simp: case_prod_unfold)
qed

theorem OnSnapshotStart_seqSnapEnd_witness:
  "fst (applyBatchUnlocked (newIndex\<lparr>batchFault := Some (EngineError ''disk full'')\<rparr>)
          samplePartition) = Some (EngineError ''disk full'') \<and>
   (case OnSnapshotStart (newIndex\<lparr>batchFault := Some (EngineError ''disk full'')\<rparr>) 8 12
           samplePartition of
      (r, bindex', t', sigs) \<Rightarrow> r = Some (EngineError ''disk full'') \<and> seqSnapEnd t' = 7) \<and>
   fst (applyBatchUnlocked newIndex samplePartition) = None \<and>
   (case OnSnapshotStart newIndex 8 12 samplePartition of
      (r, bindex', t', sigs) \<Rightarrow> r = None \<and> seqSnapEnd t' = 12)"
proof -
  let ?ix = "newIndex\<lparr>batchFault := Some (EngineError ''disk full'')\<rparr>"
  have a: "fst (applyBatchUnlocked ?ix samplePartition) = Some (EngineError ''disk full'')"
    by (simp add: applyBatchUnlocked_err)
  have b: "fst (applyBatchUnlocked newIndex samplePartition) = None"
    by (simp add: applyBatchUnlocked_err newIndex_def)
  have s: "seqSnapEnd samplePartition = 7" by (simp add: samplePartition_def)
  show ?thesis
    using OnSnapshotStart_seqSnapEnd [of ?ix samplePartition 8 12]
      OnSnapshotStart_seqSnapEnd [of newIndex samplePartition 8 12] a b s
    by (auto simp: case_prod_unfold)
qed

theorem updateSeq_stage_and_apply_witness:
  "length (slice_bytes (buf samplePartition)) < 200000 \<and> 6 < seqSnapEnd samplePartition \<and>
   6 > seqMax samplePartition \<and>
   updateSeqUnlocked newIndex 6 samplePartition =
     (None, newIndex,
      samplePartition\<lparr>seqMax := 6, seqMaxBuf := [0, 0, 0, 0, 0, 0, 0, 6],
        batch := [Index ''k'' [1, 2], SetInternal [48] [0, 0, 0, 0, 0, 0, 0, 6]]\<rparr>, []) \<and>
   \<not> (length (slice_bytes (buf samplePartition)) < 200000 \<and> 7 < seqSnapEnd samplePartition) \<and>
   updateSeqUnlocked newIndex 7 samplePartition =
     applyBatchUnlocked newIndex
       (samplePartition\<lparr>seqMax := 7, seqMaxBuf := [0, 0, 0, 0, 0, 0, 0, 7],
          batch := [Index ''k'' [1, 2], SetInternal [48] [0, 0, 0, 0, 0, 0, 0, 7]]\<rparr>) \<and>
   calls (fst (snd (updateSeqUnlocked newIndex 7 samplePartition))) =
     [CallBatch [Index ''k'' [1, 2], SetInternal [48] [0, 0, 0, 0, 0, 0, 0, 7]]] \<and>
   \<not> 4 > seqMax samplePartition \<and>
   updateSeqUnlocked newIndex 4 samplePartition = (None, newIndex, samplePartition, [])"
proof -
  have s: "seqMax samplePartition = 5" "seqSnapEnd samplePartition = 7"
    "buf samplePartition = Some [1, 2]" "batch samplePartition = [Index ''k'' [1, 2]]"
    "partition samplePartition = ''0''"
    by (simp_all add: samplePartition_def newBleveDestPartition_def)
  have p: "PutUint64 6 = [0, 0, 0, 0, 0, 0, 0, 6]" "PutUint64 7 = [0, 0, 0, 0, 0, 0, 0, 7]"
    "string_bytes ''0'' = [48]"
    by (simp_all add: PutUint64_def string_bytes_def)
  have c: "calls newIndex = []" by (simp add: newIndex_def)
  have h6: "length (slice_bytes (buf samplePartition)) < 200000 \<and> 6 < seqSnapEnd samplePartition"
    and g6: "6 > seqMax samplePartition"
    and h7: "\<not> (length (slice_bytes (buf samplePartition)) < 200000 \<and> 7 < seqSnapEnd samplePartition)"
    and g4: "\<not> 4 > seqMax samplePartition"
    by (simp_all add: s slice_bytes_def)
  have r6: "updateSeqUnlocked newIndex 6 samplePartition =
     (None, newIndex,
      samplePartition\<lparr>seqMax := 6, seqMaxBuf := [0, 0, 0, 0, 0, 0, 0, 6],
        batch := [Index ''k'' [1, 2], SetInternal [48] [0, 0, 0, 0, 0, 0, 0, 6]]\<rparr>, [])"
    using updateSeq_stage_and_apply [of samplePartition 6 newIndex] h6
    by (simp add: Let_def s p)
  note T7 = updateSeq_stage_and_apply [of samplePartition 7 newIndex, unfolded Let_def]
  have t7: "(if seqMax samplePartition < 7
             then samplePartition\<lparr>seqMax := 7, seqMaxBuf := PutUint64 7,
                    batch := batch samplePartition @
                      [SetInternal (string_bytes (partition samplePartition)) (PutUint64 7)]\<rparr>
             else samplePartition) =
     samplePartition\<lparr>seqMax := 7, seqMaxBuf := [0, 0, 0, 0, 0, 0, 0, 7],
          batch := [Index ''k'' [1, 2], SetInternal [48] [0, 0, 0, 0, 0, 0, 0, 7]]\<rparr>"
    by (simp add: s p)
  from T7 h7 have r7: "updateSeqUnlocked newIndex 7 samplePartition =
     applyBatchUnlocked newIndex
       (samplePartition\<lparr>seqMax := 7, seqMaxBuf := [0, 0, 0, 0, 0, 0, 0, 7],
          batch := [Index ''k'' [1, 2], SetInternal [48] [0, 0, 0, 0, 0, 0, 0, 7]]\<rparr>)"
    unfolding t7 by blast
  from T7 h7 have "calls (fst (snd (updateSeqUnlocked newIndex 7 samplePartition))) =
     calls newIndex @ [CallBatch (batch
       (samplePartition\<lparr>seqMax := 7, seqMaxBuf := [0, 0, 0, 0, 0, 0, 0, 7],
          batch := [Index ''k'' [1, 2], SetInternal [48] [0, 0, 0, 0, 0, 0, 0, 7]]\<rparr>))]"
    unfolding t7 by blast
  then have c7: "calls (fst (snd (updateSeqUnlocked newIndex 7 samplePartition))) =
     [CallBatch [Index ''k'' [1, 2], SetInternal [48] [0, 0, 0, 0, 0, 0, 0, 7]]]"
    by (simp add: c)
  have r4: "updateSeqUnlocked newIndex 4 samplePartition = (None, newIndex, samplePartition, [])"
    using updateSeq_stage_and_apply [of samplePartition 4 newIndex] h6
    by (simp add: Let_def s p)
  show ?thesis
    using h6 g6 r6 h7 r7 c7 g4 r4 by blast
qed


section \<open>Reading the persisted opaque value and sequence number\<close>

lemma GetInternal_ok:
  "getFault ix k = None \<Longrightarrow>
   GetInternal ix k =
     (Inr (case internal ix k of None \<Rightarrow> [] | Some v \<Rightarrow> v), ix\<lparr>calls := calls ix @ [CallGetInternal k]\<rparr>)"
  by (simp add: GetInternal_def Let_def)

lemma GetInternal_fail:
  "getFault ix k = Some e \<Longrightarrow>
   GetInternal ix k = (Inl e, ix\<lparr>calls := calls ix @ [CallGetInternal k]\<rparr>)"
  by (simp add: GetInternal_def Let_def)

text \<open>
  Claim C6. \<open>GetOpaque\<close> asks the index for the internal key \<open>o:<partition>\<close> exactly when
  \<open>lastOpaque\<close> is unset (\<open>nil\<close>), and then, unless that read failed, for the internal key
  \<open><partition>\<close> exactly when \<open>seqMax\<close> is 0. The bytes stored under \<open><partition>\<close> decide
  the result: none is valid and gives \<open>seqMax\<close> 0, exactly 8 bytes are decoded big-endian
  into \<open>seqMax\<close>, any other length is the error "unexpected size for seqMax bytes"; an
  error of the index is returned as it is. On success the result is the pair
  \<open>(lastOpaque, seqMax)\<close> of the partition after the call.
\<close>

theorem GetOpaque_reads_and_decodes:
  "case GetOpaque bindex t of (res, bindex', t') \<Rightarrow>
     (let okey = string_bytes (partitionOpaque t);
          pkey = string_bytes (partition t);
          stored = (case internal bindex pkey of None \<Rightarrow> [] | Some v \<Rightarrow> v);
          first_ok = (lastOpaque t = None \<longrightarrow> getFault bindex okey = None)
      in calls bindex' =
           calls bindex @
           (if lastOpaque t = None then [CallGetInternal okey] else []) @
           (if first_ok \<and> seqMax t = 0 then [CallGetInternal pkey] else []) \<and>
         (\<forall>e. lastOpaque t = None \<and> getFault bindex okey = Some e \<longrightarrow> res = Inl e) \<and>
         (\<forall>e. first_ok \<and> seqMax t = 0 \<and> getFault bindex pkey = Some e \<longrightarrow> res = Inl e) \<and>
         (first_ok \<and> seqMax t = 0 \<and> getFault bindex pkey = None \<longrightarrow>
            (stored = [] \<longrightarrow> res = Inr (lastOpaque t', 0) \<and> seqMax t' = 0) \<and>
            (length stored = 8 \<longrightarrow>
               res = Inr (lastOpaque t', Uint64 stored) \<and> seqMax t' = Uint64 stored) \<and>
            (stored \<noteq> [] \<and> length stored \<noteq> 8 \<longrightarrow> res = Inl UnexpectedSeqMaxSize)) \<and>
         (first_ok \<and> seqMax t \<noteq> 0 \<longrightarrow>
            res = Inr (lastOpaque t', seqMax t) \<and> seqMax t' = seqMax t) \<and>
         (\<forall>v. lastOpaque t = Some v \<longrightarrow> lastOpaque t' = Some v) \<and>
         (lastOpaque t = None \<and> getFault bindex okey = None \<longrightarrow>
            slice_bytes (lastOpaque t') = (case internal bindex okey of None \<Rightarrow> [] | Some v \<Rightarrow> v)) \<and>
         (\<forall>v s. res = Inr (v, s) \<longrightarrow> v = lastOpaque t' \<and> s = seqMax t'))"
proof -
  let ?okey = "string_bytes (partitionOpaque t)"
  let ?pkey = "string_bytes (partition t)"
  show ?thesis
  proof (cases "lastOpaque t")
    case (Some v)
    show ?thesis
    proof (cases "getFault bindex ?pkey")
      case None
      with Some show ?thesis
        by (auto simp: GetOpaque_def GetInternal_ok Let_def slice_bytes_def)
    next
      case (Some e)
      with \<open>lastOpaque t = Some v\<close> show ?thesis
        by (auto simp: GetOpaque_def GetInternal_fail Let_def slice_bytes_def)
    qed
  next
    case None
    show ?thesis
    proof (cases "getFault bindex ?okey")
      case (Some e)
      with None show ?thesis
        by (auto simp: GetOpaque_def GetInternal_fail Let_def)
    next
      case ok: None
      show ?thesis
      proof (cases "getFault bindex ?pkey")
        case None
        with ok \<open>lastOpaque t = None\<close> show ?thesis
          by (auto simp: GetOpaque_def GetInternal_ok Let_def slice_bytes_def split: option.splits)
      next
        case (Some e)
        with ok \<open>lastOpaque t = None\<close> show ?thesis
          by (auto simp: GetOpaque_def GetInternal_ok GetInternal_fail Let_def slice_bytes_def
              split: option.splits)
      qed
    qed
  qed
qed


theorem GetOpaque_reads_and_decodes_witness:
  "fst (GetOpaque newIndex (samplePartition\<lparr>lastOpaque := Some [9]\<rparr>)) = Inr (Some [9], 5) \<and>
   calls (fst (snd (GetOpaque newIndex (samplePartition\<lparr>lastOpaque := Some [9]\<rparr>)))) = [] \<and>
   fst (GetOpaque
         (newIndex\<lparr>internal := [string_bytes ''o:0'' \<mapsto> [7, 7],
                                 string_bytes ''0'' \<mapsto> [0, 0, 0, 0, 0, 0, 1, 2]]\<rparr>)
         (newBleveDestPartition ''0'')) = Inr (Some [7, 7], 258) \<and>
   calls (fst (snd (GetOpaque
         (newIndex\<lparr>internal := [string_bytes ''o:0'' \<mapsto> [7, 7],
                                 string_bytes ''0'' \<mapsto> [0, 0, 0, 0, 0, 0, 1, 2]]\<rparr>)
         (newBleveDestPartition ''0'')))) =
     [CallGetInternal (string_bytes ''o:0''), CallGetInternal (string_bytes ''0'')] \<and>
   seqMax (snd (snd (GetOpaque
         (newIndex\<lparr>internal := [string_bytes ''o:0'' \<mapsto> [7, 7],
                                 string_bytes ''0'' \<mapsto> [0, 0, 0, 0, 0, 0, 1, 2]]\<rparr>)
         (newBleveDestPartition ''0'')))) = 258 \<and>
   fst (GetOpaque (newIndex\<lparr>internal := [string_bytes ''0'' \<mapsto> [1, 2, 3]]\<rparr>)
         (newBleveDestPartition ''0'')) = Inl UnexpectedSeqMaxSize \<and>
   fst (GetOpaque newIndex (newBleveDestPartition ''0'')) = Inr (None, 0)"
proof -
  let ?ta = "samplePartition\<lparr>lastOpaque := Some [9]\<rparr>"
  let ?ixb = "newIndex\<lparr>internal := [string_bytes ''o:0'' \<mapsto> [7, 7],
                                 string_bytes ''0'' \<mapsto> [0, 0, 0, 0, 0, 0, 1, 2]]\<rparr>"
  let ?ixc = "newIndex\<lparr>internal := [string_bytes ''0'' \<mapsto> [1, 2, 3]]\<rparr>"
  let ?tn = "newBleveDestPartition ''0''"
  have sb: "string_bytes ''0'' = [48]" "string_bytes ''o:0'' = [111, 58, 48]"
    by (simp_all add: string_bytes_def)
  have n: "lastOpaque ?tn = None" "seqMax ?tn = 0" "partition ?tn = ''0''"
    "partitionOpaque ?tn = ''o:0''"
    by (simp_all add: newBleveDestPartition_def)
  have a: "lastOpaque ?ta = Some [9]" "seqMax ?ta = 5"
    by (simp_all add: samplePartition_def)
  have ix: "calls newIndex = []" "getFault newIndex = (\<lambda>k. None)" "internal newIndex = Map.empty"
    by (simp_all add: newIndex_def)
  note Ta = GetOpaque_reads_and_decodes [where bindex = newIndex and t = ?ta,
      unfolded case_prod_unfold Let_def]
  note Tb = GetOpaque_reads_and_decodes [where bindex = ?ixb and t = ?tn,
      unfolded case_prod_unfold Let_def]
  note Tc = GetOpaque_reads_and_decodes [where bindex = ?ixc and t = ?tn,
      unfolded case_prod_unfold Let_def]
  have ha: "lastOpaque ?ta = None \<longrightarrow> getFault newIndex (string_bytes (partitionOpaque ?ta)) = None"
    "seqMax ?ta \<noteq> 0" "lastOpaque ?ta \<noteq> None"
    by (simp_all add: a)
  from Ta ha(1,2) have "fst (GetOpaque newIndex ?ta) =
      Inr (lastOpaque (snd (snd (GetOpaque newIndex ?ta))), seqMax ?ta)" by blast
  moreover from Ta a(1) have "lastOpaque (snd (snd (GetOpaque newIndex ?ta))) = Some [9]" by blast
  ultimately have a1: "fst (GetOpaque newIndex ?ta) = Inr (Some [9], 5)" by (simp add: a)
  from Ta have "calls (fst (snd (GetOpaque newIndex ?ta))) =
      calls newIndex @
      (if lastOpaque ?ta = None then [CallGetInternal (string_bytes (partitionOpaque ?ta))] else []) @
      (if (lastOpaque ?ta = None \<longrightarrow> getFault newIndex (string_bytes (partitionOpaque ?ta)) = None) \<and>
          seqMax ?ta = 0
       then [CallGetInternal (string_bytes (partition ?ta))] else [])" by blast
  then have a2: "calls (fst (snd (GetOpaque newIndex ?ta))) = []"
    by (simp add: a ix)
  have stb: "(case internal ?ixb (string_bytes (partition ?tn)) of None \<Rightarrow> [] | Some v \<Rightarrow> v) =
      [0, 0, 0, 0, 0, 0, 1, 2]"
    "(case internal ?ixb (string_bytes (partitionOpaque ?tn)) of None \<Rightarrow> [] | Some v \<Rightarrow> v) = [7, 7]"
    by (simp_all add: n sb)
  have hb: "lastOpaque ?tn = None \<longrightarrow> getFault ?ixb (string_bytes (partitionOpaque ?tn)) = None"
    "seqMax ?tn = 0" "getFault ?ixb (string_bytes (partition ?tn)) = None"
    "length (case internal ?ixb (string_bytes (partition ?tn)) of None \<Rightarrow> [] | Some v \<Rightarrow> v) = 8"
    "lastOpaque ?tn = None \<and> getFault ?ixb (string_bytes (partitionOpaque ?tn)) = None"
    by (simp_all add: n ix stb)
  from Tb hb(1-4) have rb: "fst (GetOpaque ?ixb ?tn) =
      Inr (lastOpaque (snd (snd (GetOpaque ?ixb ?tn))),
           Uint64 (case internal ?ixb (string_bytes (partition ?tn)) of None \<Rightarrow> [] | Some v \<Rightarrow> v))"
    and sb3: "seqMax (snd (snd (GetOpaque ?ixb ?tn))) =
      Uint64 (case internal ?ixb (string_bytes (partition ?tn)) of None \<Rightarrow> [] | Some v \<Rightarrow> v)"
    by blast+
  from Tb hb(5) have "slice_bytes (lastOpaque (snd (snd (GetOpaque ?ixb ?tn)))) =
      (case internal ?ixb (string_bytes (partitionOpaque ?tn)) of None \<Rightarrow> [] | Some v \<Rightarrow> v)"
    by blast
  then have "lastOpaque (snd (snd (GetOpaque ?ixb ?tn))) = Some [7, 7]"
    unfolding stb by (cases "lastOpaque (snd (snd (GetOpaque ?ixb ?tn)))") (simp_all add: slice_bytes_def)
  with rb have b1: "fst (GetOpaque ?ixb ?tn) = Inr (Some [7, 7], 258)"
    unfolding stb by (simp add: Uint64_def)
  from sb3 have b3: "seqMax (snd (snd (GetOpaque ?ixb ?tn))) = 258"
    unfolding stb by (simp add: Uint64_def)
  from Tb have "calls (fst (snd (GetOpaque ?ixb ?tn))) =
      calls ?ixb @
      (if lastOpaque ?tn = None then [CallGetInternal (string_bytes (partitionOpaque ?tn))] else []) @
      (if (lastOpaque ?tn = None \<longrightarrow> getFault ?ixb (string_bytes (partitionOpaque ?tn)) = None) \<and>
          seqMax ?tn = 0
       then [CallGetInternal (string_bytes (partition ?tn))] else [])" by blast
  then have b2: "calls (fst (snd (GetOpaque ?ixb ?tn))) =
      [CallGetInternal (string_bytes ''o:0''), CallGetInternal (string_bytes ''0'')]"
    by (simp add: n ix)
  have stc: "(case internal ?ixc (string_bytes (partition ?tn)) of None \<Rightarrow> [] | Some v \<Rightarrow> v) =
      [1, 2, 3]"
    by (simp add: n sb)
  have hc: "lastOpaque ?tn = None \<longrightarrow> getFault ?ixc (string_bytes (partitionOpaque ?tn)) = None"
    "seqMax ?tn = 0" "getFault ?ixc (string_bytes (partition ?tn)) = None"
    "(case internal ?ixc (string_bytes (partition ?tn)) of None \<Rightarrow> [] | Some v \<Rightarrow> v) \<noteq> [] \<and>
     length (case internal ?ixc (string_bytes (partition ?tn)) of None \<Rightarrow> [] | Some v \<Rightarrow> v) \<noteq> 8"
    by (simp_all add: n ix stc)
  from Tc hc have c1: "fst (GetOpaque ?ixc ?tn) = Inl UnexpectedSeqMaxSize" by blast
  show ?thesis
    using a1 a2 b1 b2 b3 c1 by (simp add: GetOpaque_def GetInternal_def Let_def n ix)
qed

section \<open>Histories of a partition\<close>

text \<open>
  The operations of a partition as steps on the pair of the index and the partition.
  Each operation runs under the partition's mutex, so a history of a partition is a
  sequence of such steps. \<open>OpWait\<close> is the worker receiving a request, \<open>OpFaults\<close> is
  the environment changing which calls of the index fail. \<open>trace\<close> lists the states a
  history goes through, \<open>run\<close> gives its last state.
\<close>

datatype op =
    OpUpdate bytes uint64 bytes
  | OpDelete bytes uint64
  | OpSnapshotStart uint64 uint64
  | OpSetOpaque bytes
  | OpGetOpaque
  | OpApplyBatch
  | OpWait consistencyWaitReq
  | OpFaults "error option" "bytes \<Rightarrow> error option"

fun step :: "op \<Rightarrow> bleve_index \<times> BleveDestPartition \<Rightarrow> bleve_index \<times> BleveDestPartition" where
  "step (OpUpdate key seq val) (bindex, t) =
     (case OnDataUpdate bindex key seq val t of (err, bindex', t', sigs) \<Rightarrow> (bindex', t'))"
| "step (OpDelete key seq) (bindex, t) =
     (case OnDataDelete bindex key seq t of (err, bindex', t', sigs) \<Rightarrow> (bindex', t'))"
| "step (OpSnapshotStart snapStart snapEnd) (bindex, t) =
     (case OnSnapshotStart bindex snapStart snapEnd t of (err, bindex', t', sigs) \<Rightarrow> (bindex', t'))"
| "step (OpSetOpaque val) (bindex, t) =
     (case SetOpaque bindex val t of (err, bindex', t', sigs) \<Rightarrow> (bindex', t'))"
| "step OpGetOpaque (bindex, t) =
     (case GetOpaque bindex t of (res, bindex', t') \<Rightarrow> (bindex', t'))"
| "step OpApplyBatch (bindex, t) =
     (case applyBatchUnlocked bindex t of (err, bindex', t', sigs) \<Rightarrow> (bindex', t'))"
| "step (OpWait cwr) (bindex, t) = (bindex, fst (run_recv t cwr))"
| "step (OpFaults bf gf) (bindex, t) = (bindex\<lparr>batchFault := bf, getFault := gf\<rparr>, t)"

fun trace :: "op list \<Rightarrow> bleve_index \<times> BleveDestPartition \<Rightarrow>
    (bleve_index \<times> BleveDestPartition) list" where
  "trace [] s = [s]"
| "trace (x # xs) s = s # trace xs (step x s)"

fun run :: "op list \<Rightarrow> bleve_index \<times> BleveDestPartition \<Rightarrow> bleve_index \<times> BleveDestPartition" where
  "run [] s = s"
| "run (x # xs) s = run xs (step x s)"

text \<open>
  \<open>pendingOpaque\<close> is what the index holds under \<open>o:<partition>\<close> once the pending batch
  is applied. \<open>partition_inv\<close> holds of every partition made by \<open>getPartitionUnlocked\<close>
  over an index whose \<open><partition>\<close> key was only written by this code, and is kept by
  every step.
\<close>

definition pendingOpaque :: "bleve_index \<Rightarrow> BleveDestPartition \<Rightarrow> bytes option" where
  "pendingOpaque bindex t =
     internal (foldl applyOp bindex (batch t)) (string_bytes (partitionOpaque t))"

definition partition_inv :: "bleve_index \<Rightarrow> BleveDestPartition \<Rightarrow> bool" where
  "partition_inv bindex t \<longleftrightarrow>
     partitionOpaque t = ''o:'' @ partition t \<and>
     seqMaxBatch t \<le> seqMax t \<and>
     is_heap (cwrQueue t) \<and>
     (\<forall>v. SetInternal (string_bytes (partition t)) v \<in> set (batch t) \<longrightarrow> length v = 8) \<and>
     (\<forall>v. internal bindex (string_bytes (partition t)) = Some v \<longrightarrow> length v = 8)"

lemma applyOp_faults [simp]:
  "batchFault (applyOp ix a) = batchFault ix" "getFault (applyOp ix a) = getFault ix"
  "closeFault (applyOp ix a) = closeFault ix"
  by (cases a; simp)+

lemma foldl_applyOp_faults [simp]:
  "batchFault (foldl applyOp ix b) = batchFault ix" "getFault (foldl applyOp ix b) = getFault ix"
  "closeFault (foldl applyOp ix b) = closeFault ix"
  by (induction b arbitrary: ix; simp)+

lemma foldl_applyOp_internal_P:
  "(\<forall>v. internal ix k = Some v \<longrightarrow> P v) \<Longrightarrow>
   (\<forall>v. SetInternal k v \<in> set b \<longrightarrow> P v) \<Longrightarrow>
   internal (foldl applyOp ix b) k = Some v \<Longrightarrow> P v"
proof (induction b arbitrary: ix)
  case Nil
  then show ?case by simp
next
  case (Cons a b)
  have "\<forall>v. internal (applyOp ix a) k = Some v \<longrightarrow> P v"
    using Cons.prems(1,2) by (cases a) auto
  then show ?case
    using Cons.IH [of "applyOp ix a"] Cons.prems(2,3) by simp
qed

lemma length_string_bytes [simp]: "length (string_bytes s) = length s"
  by (simp add: string_bytes_def)

lemma opaque_key_neq: "string_bytes (''o:'' @ p) \<noteq> string_bytes p"
proof
  assume "string_bytes (''o:'' @ p) = string_bytes p"
  then have "length (string_bytes (''o:'' @ p)) = length (string_bytes p)" by simp
  then show False by simp
qed

lemma partition_inv_new:
  "\<forall>v. internal bindex (string_bytes p) = Some v \<longrightarrow> length v = 8 \<Longrightarrow>
   partition_inv bindex (newBleveDestPartition p)"
  by (simp add: partition_inv_def newBleveDestPartition_def is_heap_def)

lemma applyBatch_inv:
  assumes "partition_inv bindex t"
  shows "partition_inv (fst (snd (applyBatchUnlocked bindex t))) (fst (snd (snd (applyBatchUnlocked bindex t))))"
proof (cases "batchFault bindex")
  case (Some e)
  with assms show ?thesis
    by (simp add: applyBatchUnlocked_fail partition_inv_def)
next
  case None
  have "length v = 8"
    if "internal (foldl applyOp (bindex\<lparr>calls := calls bindex @ [CallBatch (batch t)]\<rparr>) (batch t))
          (string_bytes (partition t)) = Some v" for v
    using assms
    by (intro foldl_applyOp_internal_P [where P = "\<lambda>v. length v = 8", OF _ _ that])
       (simp_all add: partition_inv_def)
  then show ?thesis
    using assms wakeWaiters_props [of "cwrQueue t" "seqMax t"]
    by (simp add: applyBatchUnlocked_ok [OF None] partition_inv_def)
qed

lemma applyBatch_mono:
  assumes "seqMaxBatch t \<le> seqMax t"
  shows "seqMax (fst (snd (snd (applyBatchUnlocked bindex t)))) = seqMax t"
    and "seqMaxBatch t \<le> seqMaxBatch (fst (snd (snd (applyBatchUnlocked bindex t))))"
    and "seqMaxBatch (fst (snd (snd (applyBatchUnlocked bindex t)))) \<le>
         seqMax (fst (snd (snd (applyBatchUnlocked bindex t))))"
  using assms
  by (cases "batchFault bindex"; simp add: applyBatchUnlocked_ok applyBatchUnlocked_fail)+

lemma updateSeq_inv:
  assumes "partition_inv bindex t"
  shows "partition_inv (fst (snd (updateSeqUnlocked bindex seq t)))
           (fst (snd (snd (updateSeqUnlocked bindex seq t))))"
proof -
  let ?t1 = "if seqMax t < seq
             then t\<lparr>seqMax := seq, seqMaxBuf := PutUint64 seq,
                    batch := batch t @ [SetInternal (string_bytes (partition t)) (PutUint64 seq)]\<rparr>
             else t"
  have i1: "partition_inv bindex ?t1"
    using assms by (auto simp: partition_inv_def)
  show ?thesis
    using i1 applyBatch_inv [OF i1]
    by (simp add: updateSeqUnlocked_def Let_def)
qed

lemma updateSeq_mono:
  assumes "seqMaxBatch t \<le> seqMax t"
  shows "seqMax t \<le> seqMax (fst (snd (snd (updateSeqUnlocked bindex seq t)))) \<and>
         seqMaxBatch t \<le> seqMaxBatch (fst (snd (snd (updateSeqUnlocked bindex seq t)))) \<and>
         seqMaxBatch (fst (snd (snd (updateSeqUnlocked bindex seq t)))) \<le>
           seqMax (fst (snd (snd (updateSeqUnlocked bindex seq t))))"
proof -
  let ?t1 = "if seqMax t < seq
             then t\<lparr>seqMax := seq, seqMaxBuf := PutUint64 seq,
                    batch := batch t @ [SetInternal (string_bytes (partition t)) (PutUint64 seq)]\<rparr>
             else t"
  have a: "seqMaxBatch ?t1 \<le> seqMax ?t1" "seqMax t \<le> seqMax ?t1" "seqMaxBatch ?t1 = seqMaxBatch t"
    using assms by auto
  show ?thesis
    using a applyBatch_mono [OF a(1), of bindex]
    by (simp add: updateSeqUnlocked_def Let_def)
qed

lemma GetInternal_internal [simp]: "internal (snd (GetInternal ix k)) = internal ix"
  by (simp add: GetInternal_def Let_def split: option.splits)

lemma GetOpaque_frame:
  "case GetOpaque bindex t of (res, bindex', t') \<Rightarrow>
     internal bindex' = internal bindex \<and> docs bindex' = docs bindex \<and>
     partition t' = partition t \<and> partitionOpaque t' = partitionOpaque t \<and>
     batch t' = batch t \<and> cwrQueue t' = cwrQueue t \<and> seqMaxBatch t' = seqMaxBatch t \<and>
     seqSnapEnd t' = seqSnapEnd t \<and> buf t' = buf t \<and>
     (seqMax t' = seqMax t \<or> seqMax t = 0)"
  by (auto simp: GetOpaque_def GetInternal_def Let_def split: option.splits)

lemma appendToBuf_frame:
  "case appendToBufUnlocked b t of (v, t') \<Rightarrow>
     v = b \<and> t' = t\<lparr>buf := (if b = [] then buf t else Some (slice_bytes (buf t) @ b))\<rparr>"
  by (auto simp: appendToBufUnlocked_def Let_def slice_bytes_def)

lemma step_inv:
  assumes "partition_inv (fst s) (snd s)"
  shows "partition_inv (fst (step x s)) (snd (step x s))"
proof -
  obtain bindex t where s: "s = (bindex, t)" by (cases s)
  have inv: "partition_inv bindex t" using assms s by simp
  show ?thesis
  proof (cases x)
    case (OpUpdate key seq val)
    have "partition_inv bindex
            (t\<lparr>buf := (if val = [] then buf t else Some (slice_bytes (buf t) @ val)),
               batch := batch t @ [Index (bytes_string key) val]\<rparr>)"
      using inv by (auto simp: partition_inv_def)
    from updateSeq_inv [OF this, of seq] show ?thesis
      using appendToBuf_frame [of val t]
      by (simp add: s OpUpdate OnDataUpdate_def case_prod_unfold Let_def)
  next
    case (OpDelete key seq)
    have "partition_inv bindex (t\<lparr>batch := batch t @ [Delete (bytes_string key)]\<rparr>)"
      using inv by (auto simp: partition_inv_def)
    from updateSeq_inv [OF this, of seq] show ?thesis
      by (simp add: s OpDelete OnDataDelete_def case_prod_unfold Let_def)
  next
    case (OpSnapshotStart snapStart snapEnd)
    from applyBatch_inv [OF inv] show ?thesis
      by (cases "batchFault bindex")
         (simp_all add: s OpSnapshotStart OnSnapshotStart_def applyBatchUnlocked_ok
            applyBatchUnlocked_fail partition_inv_def)
  next
    case (OpSetOpaque val)
    from inv opaque_key_neq [of "partition t"] show ?thesis
      by (auto simp: s OpSetOpaque SetOpaque_def Let_def partition_inv_def)
  next
    case OpGetOpaque
    have "seqMaxBatch t = 0" if "seqMax t = 0"
      using inv that by (simp add: partition_inv_def)
    with inv GetOpaque_frame [of bindex t] show ?thesis
      by (auto simp: s OpGetOpaque case_prod_unfold partition_inv_def)
  next
    case OpApplyBatch
    from applyBatch_inv [OF inv] show ?thesis
      by (simp add: s OpApplyBatch case_prod_unfold)
  next
    case (OpWait cwr)
    from inv show ?thesis
      by (auto simp: s OpWait run_recv_def partition_inv_def heap_Push_heap)
  next
    case (OpFaults bf gf)
    from inv show ?thesis
      by (simp add: s OpFaults partition_inv_def)
  qed
qed

lemma step_mono:
  assumes "seqMaxBatch (snd s) \<le> seqMax (snd s)"
  shows "seqMax (snd s) \<le> seqMax (snd (step x s)) \<and>
         seqMaxBatch (snd s) \<le> seqMaxBatch (snd (step x s)) \<and>
         seqMaxBatch (snd (step x s)) \<le> seqMax (snd (step x s))"
proof -
  obtain bindex t where s: "s = (bindex, t)" by (cases s)
  have le: "seqMaxBatch t \<le> seqMax t" using assms s by simp
  show ?thesis
  proof (cases x)
    case (OpUpdate key seq val)
    let ?t = "t\<lparr>buf := (if val = [] then buf t else Some (slice_bytes (buf t) @ val)),
               batch := batch t @ [Index (bytes_string key) val]\<rparr>"
    have "seqMaxBatch ?t \<le> seqMax ?t" using le by simp
    from updateSeq_mono [OF this, of bindex seq] show ?thesis
      using appendToBuf_frame [of val t]
      by (simp add: s OpUpdate OnDataUpdate_def case_prod_unfold Let_def)
  next
    case (OpDelete key seq)
    let ?t = "t\<lparr>batch := batch t @ [Delete (bytes_string key)]\<rparr>"
    have "seqMaxBatch ?t \<le> seqMax ?t" using le by simp
    from updateSeq_mono [OF this, of bindex seq] show ?thesis
      by (simp add: s OpDelete OnDataDelete_def case_prod_unfold Let_def)
  next
    case (OpSnapshotStart snapStart snapEnd)
    from le show ?thesis
      by (cases "batchFault bindex")
         (simp_all add: s OpSnapshotStart OnSnapshotStart_def applyBatchUnlocked_ok
            applyBatchUnlocked_fail)
  next
    case (OpSetOpaque val)
    from le show ?thesis
      by (simp add: s OpSetOpaque SetOpaque_def Let_def)
  next
    case OpGetOpaque
    from GetOpaque_frame [of bindex t] le show ?thesis
      by (auto simp: s OpGetOpaque case_prod_unfold)
  next
    case OpApplyBatch
    from applyBatch_mono [OF le, of bindex] show ?thesis
      by (simp add: s OpApplyBatch case_prod_unfold)
  next
    case (OpWait cwr)
    from le show ?thesis
      by (simp add: s OpWait run_recv_def)
  next
    case (OpFaults bf gf)
    from le show ?thesis
      by (simp add: s OpFaults)
  qed
qed


lemma trace_from:
  assumes "seqMaxBatch (snd s) \<le> seqMax (snd s)"
  shows "\<forall>y\<in>set (trace ops s).
           seqMaxBatch (snd y) \<le> seqMax (snd y) \<and>
           seqMax (snd s) \<le> seqMax (snd y) \<and> seqMaxBatch (snd s) \<le> seqMaxBatch (snd y)"
  using assms
proof (induction ops arbitrary: s)
  case Nil
  then show ?case by simp
next
  case (Cons x xs)
  note M = step_mono [OF Cons.prems, of x]
  from M have "seqMaxBatch (snd (step x s)) \<le> seqMax (snd (step x s))" by simp
  from Cons.IH [OF this] M Cons.prems show ?case
    by (auto intro: order_trans)
qed

lemma trace_sorted:
  assumes "seqMaxBatch (snd s) \<le> seqMax (snd s)"
  shows "sorted_wrt (\<lambda>a b. seqMax (snd a) \<le> seqMax (snd b) \<and>
                            seqMaxBatch (snd a) \<le> seqMaxBatch (snd b)) (trace ops s)"
  using assms
proof (induction ops arbitrary: s)
  case Nil
  then show ?case by simp
next
  case (Cons x xs)
  note M = step_mono [OF Cons.prems, of x]
  from M have le: "seqMaxBatch (snd (step x s)) \<le> seqMax (snd (step x s))" by simp
  from trace_from [OF le, of xs] M
  have "\<forall>y\<in>set (trace xs (step x s)).
          seqMax (snd s) \<le> seqMax (snd y) \<and> seqMaxBatch (snd s) \<le> seqMaxBatch (snd y)"
    by (auto intro: order_trans)
  with Cons.IH [OF le] show ?case by simp
qed

text \<open>
  Claim C4. Along every history of a new partition (updates, deletes, snapshot starts,
  opaque sets and gets, batch applies, wait intake, whether they succeed or fail, over
  any index), \<open>seqMaxBatch \<le> seqMax\<close> holds in every state, and \<open>seqMax\<close> and \<open>seqMaxBatch\<close>
  never decrease from a state to a later one.
\<close>

theorem seqMaxBatch_le_seqMax_monotone:
  "(\<forall>s\<in>set (trace ops (bindex, newBleveDestPartition p)). seqMaxBatch (snd s) \<le> seqMax (snd s)) \<and>
   sorted_wrt (\<lambda>a b. seqMax (snd a) \<le> seqMax (snd b) \<and>
                        seqMaxBatch (snd a) \<le> seqMaxBatch (snd b))
     (trace ops (bindex, newBleveDestPartition p))"
proof -
  have "seqMaxBatch (snd (bindex, newBleveDestPartition p)) \<le>
        seqMax (snd (bindex, newBleveDestPartition p))"
    by (simp add: newBleveDestPartition_def)
  from trace_from [OF this, of ops] trace_sorted [OF this, of ops]
  show ?thesis by blast
qed

subsection \<open>The opaque value survives until it is applied\<close>

lemma foldl_internal_cong:
  "internal ix = internal ix' \<Longrightarrow> internal (foldl applyOp ix b) = internal (foldl applyOp ix' b)"
proof (induction b arbitrary: ix ix')
  case Nil
  then show ?case by simp
next
  case (Cons a b)
  have "internal (applyOp ix a) = internal (applyOp ix' a)"
    using Cons.prems by (cases a) simp_all
  from Cons.IH [OF this] show ?case by simp
qed

lemma pendingOpaque_cong:
  "internal ix = internal ix' \<Longrightarrow> batch t = batch t' \<Longrightarrow> partitionOpaque t = partitionOpaque t' \<Longrightarrow>
   pendingOpaque ix t = pendingOpaque ix' t'"
  using foldl_internal_cong [of ix ix' "batch t"] by (simp add: pendingOpaque_def)

lemma pendingOpaque_snoc:
  "partitionOpaque t' = partitionOpaque t \<Longrightarrow> batch t' = batch t @ [a] \<Longrightarrow>
   (\<forall>v. a \<noteq> SetInternal (string_bytes (partitionOpaque t)) v) \<Longrightarrow>
   pendingOpaque ix t' = pendingOpaque ix t"
  by (cases a) (auto simp: pendingOpaque_def)

lemma applyBatch_pending:
  "pendingOpaque (fst (snd (applyBatchUnlocked bindex t))) (fst (snd (snd (applyBatchUnlocked bindex t)))) =
   pendingOpaque bindex t"
proof (cases "batchFault bindex")
  case (Some e)
  show ?thesis
    unfolding applyBatchUnlocked_fail [OF Some]
    by (simp, rule pendingOpaque_cong) simp_all
next
  case None
  have "internal (foldl applyOp (bindex\<lparr>calls := calls bindex @ [CallBatch (batch t)]\<rparr>) (batch t)) =
        internal (foldl applyOp bindex (batch t))"
    by (rule foldl_internal_cong) simp
  then show ?thesis
    unfolding applyBatchUnlocked_ok [OF None]
    by (simp add: pendingOpaque_def)
qed

lemma applyBatch_names:
  "partition (fst (snd (snd (applyBatchUnlocked bindex t)))) = partition t \<and>
   partitionOpaque (fst (snd (snd (applyBatchUnlocked bindex t)))) = partitionOpaque t"
  by (cases "batchFault bindex") (simp_all add: applyBatchUnlocked_ok applyBatchUnlocked_fail)

lemma updateSeq_pending:
  assumes "partitionOpaque t = ''o:'' @ partition t"
  shows "pendingOpaque (fst (snd (updateSeqUnlocked bindex seq t)))
           (fst (snd (snd (updateSeqUnlocked bindex seq t)))) = pendingOpaque bindex t"
    and "partition (fst (snd (snd (updateSeqUnlocked bindex seq t)))) = partition t"
    and "partitionOpaque (fst (snd (snd (updateSeqUnlocked bindex seq t)))) = partitionOpaque t"
proof -
  let ?t1 = "if seqMax t < seq
             then t\<lparr>seqMax := seq, seqMaxBuf := PutUint64 seq,
                    batch := batch t @ [SetInternal (string_bytes (partition t)) (PutUint64 seq)]\<rparr>
             else t"
  have "pendingOpaque bindex
          (t\<lparr>seqMax := seq, seqMaxBuf := PutUint64 seq,
             batch := batch t @ [SetInternal (string_bytes (partition t)) (PutUint64 seq)]\<rparr>) =
        pendingOpaque bindex t"
    using assms opaque_key_neq [of "partition t"]
    by (intro pendingOpaque_snoc) auto
  then have p: "pendingOpaque bindex ?t1 = pendingOpaque bindex t" by simp
  have n: "partition ?t1 = partition t" "partitionOpaque ?t1 = partitionOpaque t" by simp_all
  show "pendingOpaque (fst (snd (updateSeqUnlocked bindex seq t)))
           (fst (snd (snd (updateSeqUnlocked bindex seq t)))) = pendingOpaque bindex t"
    using p applyBatch_pending [of bindex ?t1]
    by (simp add: updateSeqUnlocked_def Let_def)
  show "partition (fst (snd (snd (updateSeqUnlocked bindex seq t)))) = partition t"
    using n applyBatch_names [of bindex ?t1]
    by (simp add: updateSeqUnlocked_def Let_def)
  show "partitionOpaque (fst (snd (snd (updateSeqUnlocked bindex seq t)))) = partitionOpaque t"
    using n applyBatch_names [of bindex ?t1]
    by (simp add: updateSeqUnlocked_def Let_def)
qed

lemma step_pending:
  assumes "partitionOpaque (snd s) = ''o:'' @ partition (snd s)" and "\<forall>w. x \<noteq> OpSetOpaque w"
  shows "pendingOpaque (fst (step x s)) (snd (step x s)) = pendingOpaque (fst s) (snd s) \<and>
         partition (snd (step x s)) = partition (snd s) \<and>
         partitionOpaque (snd (step x s)) = partitionOpaque (snd s)"
proof -
  obtain bindex t where s: "s = (bindex, t)" by (cases s)
  have po: "partitionOpaque t = ''o:'' @ partition t" using assms s by simp
  show ?thesis
  proof (cases x)
    case (OpUpdate key seq val)
    let ?t = "t\<lparr>buf := (if val = [] then buf t else Some (slice_bytes (buf t) @ val)),
               batch := batch t @ [Index (bytes_string key) val]\<rparr>"
    have po': "partitionOpaque ?t = ''o:'' @ partition ?t" using po by simp
    have "pendingOpaque bindex ?t = pendingOpaque bindex t"
      by (intro pendingOpaque_snoc) auto
    with updateSeq_pending [OF po', of bindex seq] show ?thesis
      using appendToBuf_frame [of val t]
      by (simp add: s OpUpdate OnDataUpdate_def case_prod_unfold Let_def)
  next
    case (OpDelete key seq)
    let ?t = "t\<lparr>batch := batch t @ [Delete (bytes_string key)]\<rparr>"
    have po': "partitionOpaque ?t = ''o:'' @ partition ?t" using po by simp
    have "pendingOpaque bindex ?t = pendingOpaque bindex t"
      by (intro pendingOpaque_snoc) auto
    with updateSeq_pending [OF po', of bindex seq] show ?thesis
      by (simp add: s OpDelete OnDataDelete_def case_prod_unfold Let_def)
  next
    case (OpSnapshotStart snapStart snapEnd)
    let ?r = "applyBatchUnlocked bindex t"
    have "step x s = (fst (snd ?r),
        if fst ?r = None then (fst (snd (snd ?r)))\<lparr>seqSnapEnd := snapEnd\<rparr> else fst (snd (snd ?r)))"
      by (auto simp: s OpSnapshotStart OnSnapshotStart_def split: prod.splits option.splits)
    with applyBatch_pending [of bindex t] applyBatch_names [of bindex t] show ?thesis
      by (auto simp: s pendingOpaque_def)
  next
    case (OpSetOpaque val)
    with assms(2) show ?thesis by simp
  next
    case OpGetOpaque
    from GetOpaque_frame [of bindex t] show ?thesis
      by (auto simp: s OpGetOpaque case_prod_unfold intro: pendingOpaque_cong)
  next
    case OpApplyBatch
    from applyBatch_pending [of bindex t] applyBatch_names [of bindex t] show ?thesis
      by (simp add: s OpApplyBatch case_prod_unfold)
  next
    case (OpWait cwr)
    show ?thesis
      by (auto simp: s OpWait run_recv_def intro: pendingOpaque_cong)
  next
    case (OpFaults bf gf)
    show ?thesis
      by (auto simp: s OpFaults intro: pendingOpaque_cong)
  qed
qed

lemma run_inv:
  "partition_inv (fst s) (snd s) \<Longrightarrow> partition_inv (fst (run ops s)) (snd (run ops s))"
  by (induction ops arbitrary: s) (simp_all add: step_inv)

lemma run_pending:
  assumes "partition_inv (fst s) (snd s)" and "\<forall>w. OpSetOpaque w \<notin> set ops"
  shows "pendingOpaque (fst (run ops s)) (snd (run ops s)) = pendingOpaque (fst s) (snd s) \<and>
         partition (snd (run ops s)) = partition (snd s)"
  using assms
proof (induction ops arbitrary: s)
  case Nil
  then show ?case by simp
next
  case (Cons x xs)
  have po: "partitionOpaque (snd s) = ''o:'' @ partition (snd s)"
    using Cons.prems(1) by (simp add: partition_inv_def)
  have nx: "\<forall>w. x \<noteq> OpSetOpaque w" using Cons.prems(2) by auto
  note S = step_pending [OF po nx]
  have "partition_inv (fst (step x s)) (snd (step x s))"
    by (rule step_inv [OF Cons.prems(1)])
  from Cons.IH [OF this] Cons.prems(2) S show ?case by simp
qed



lemma SetOpaque_pending:
  "pendingOpaque (fst (step (OpSetOpaque v) s)) (snd (step (OpSetOpaque v) s)) = Some v"
proof -
  obtain bindex t where s: "s = (bindex, t)" by (cases s)
  show ?thesis
    by (simp add: s SetOpaque_def Let_def pendingOpaque_def slice_bytes_def)
qed

text \<open>
  Claim C7. After \<open>SetOpaque v\<close>, any further operations other than \<open>SetOpaque\<close>, and a
  batch apply that succeeds, a new partition of the same name over an index holding
  the same internal keys and whose reads do not fail (a reopen) gets from \<open>GetOpaque\<close> a
  successful result whose opaque value is \<open>v\<close>.
\<close>

theorem opaque_roundtrip:
  assumes "partition_inv bindex t"
    and "\<forall>w. OpSetOpaque w \<notin> set ops"
    and "run (OpSetOpaque v # ops) (bindex, t) = (bindex1, t1)"
    and "applyBatchUnlocked bindex1 t1 = (None, bindex2, t2, sigs)"
    and "internal bindex3 = internal bindex2"
    and "getFault bindex3 = (\<lambda>k. None)"
  shows "\<exists>val seq bindex4 t4.
           GetOpaque bindex3 (newBleveDestPartition (partition t)) = (Inr (val, seq), bindex4, t4) \<and>
           slice_bytes val = v"
proof -
  let ?s0 = "step (OpSetOpaque v) (bindex, t)"
  let ?p = "partition t"
  have i0: "partition_inv (fst ?s0) (snd ?s0)"
    using step_inv [of "(bindex, t)" "OpSetOpaque v"] assms(1) by simp
  have p0: "partition (snd ?s0) = ?p" by (simp add: SetOpaque_def Let_def)
  have r: "run ops ?s0 = (bindex1, t1)" using assms(3) by simp
  from run_inv [OF i0, of ops] r have i1: "partition_inv bindex1 t1" by simp
  from run_pending [OF i0 assms(2)] r SetOpaque_pending [of v "(bindex, t)"] p0
  have pend: "pendingOpaque bindex1 t1 = Some v" and p1: "partition t1 = ?p" by simp_all
  have ok: "batchFault bindex1 = None"
    using applyBatchUnlocked_err [of bindex1 t1] assms(4) by simp
  from applyBatch_pending [of bindex1 t1] applyBatch_names [of bindex1 t1] assms(4) pend p1
  have pend2: "pendingOpaque bindex2 t2 = Some v" and p2: "partition t2 = ?p" by simp_all
  have b2: "batch t2 = []"
    using assms(4) by (auto simp: applyBatchUnlocked_ok [OF ok])
  from applyBatch_inv [OF i1] assms(4) have i2: "partition_inv bindex2 t2" by simp
  have po2: "partitionOpaque t2 = ''o:'' @ ?p" using i2 p2 by (simp add: partition_inv_def)
  have so: "internal bindex3 (string_bytes (''o:'' @ ?p)) = Some v"
    using pend2 b2 po2 assms(5) by (simp add: pendingOpaque_def)
  have sp: "\<forall>b. internal bindex3 (string_bytes ?p) = Some b \<longrightarrow> length b = 8"
    using i2 p2 assms(5) by (simp add: partition_inv_def)
  show ?thesis
  proof (cases "internal bindex3 (string_bytes ?p)")
    case None
    with so assms(6) show ?thesis
      by (simp add: GetOpaque_def GetInternal_def Let_def newBleveDestPartition_def slice_bytes_def)
  next
    case (Some b)
    with sp have "length b = 8" by simp
    with Some so assms(6) show ?thesis
      by (simp add: GetOpaque_def GetInternal_def Let_def newBleveDestPartition_def slice_bytes_def)
  qed
qed

subsection \<open>Examples of histories\<close>

lemmas eval_defs = newIndex_def newBleveDestPartition_def OnSnapshotStart_def OnDataUpdate_def
  OnDataDelete_def SetOpaque_def applyBatchUnlocked_def IndexBatch_def updateSeqUnlocked_def
  appendToBufUnlocked_def Let_def slice_bytes_def string_bytes_def bytes_string_def
  BLEVE_DEST_APPLY_BUF_SIZE_BYTES_def PutUint64_def wakeWaiters_stop

theorem seqMaxBatch_le_seqMax_monotone_witness:
  "map (\<lambda>s. (seqMax (snd s), seqMaxBatch (snd s)))
     (trace [OpSnapshotStart 1 5, OpUpdate [107] 3 [1, 2], OpUpdate [108] 5 [3]]
        (newIndex, newBleveDestPartition ''0'')) = [(0, 0), (0, 0), (3, 0), (5, 5)] \<and>
   seqMaxBatch (snd (last (trace [OpSnapshotStart 1 5, OpUpdate [107] 3 [1, 2], OpUpdate [108] 5 [3]]
        (newIndex, newBleveDestPartition ''0'')))) \<le>
   seqMax (snd (last (trace [OpSnapshotStart 1 5, OpUpdate [107] 3 [1, 2], OpUpdate [108] 5 [3]]
        (newIndex, newBleveDestPartition ''0'')))) \<and>
   sorted_wrt (\<lambda>a b. seqMax (snd a) \<le> seqMax (snd b) \<and> seqMaxBatch (snd a) \<le> seqMaxBatch (snd b))
     (trace [OpSnapshotStart 1 5, OpUpdate [107] 3 [1, 2], OpUpdate [108] 5 [3]]
        (newIndex, newBleveDestPartition ''0''))"
proof -
  let ?tr = "trace [OpSnapshotStart 1 5, OpUpdate [107] 3 [1, 2], OpUpdate [108] 5 [3]]
        (newIndex, newBleveDestPartition ''0'')"
  note T = seqMaxBatch_le_seqMax_monotone
    [of "[OpSnapshotStart 1 5, OpUpdate [107] 3 [1, 2], OpUpdate [108] 5 [3]]" newIndex "''0''"]
  have ne: "?tr \<noteq> []" by simp
  then have "last ?tr \<in> set ?tr" by (rule last_in_set)
  with T have a: "seqMaxBatch (snd (last ?tr)) \<le> seqMax (snd (last ?tr))" by blast
  have b: "map (\<lambda>s. (seqMax (snd s), seqMaxBatch (snd s))) ?tr = [(0, 0), (0, 0), (3, 0), (5, 5)]"
    by (simp add: eval_defs)
  from T a b show ?thesis by blast
qed

theorem opaque_roundtrip_witness:
  "partition_inv newIndex (newBleveDestPartition ''0'') \<and>
   (\<forall>w. OpSetOpaque w \<notin> set [OpSnapshotStart 1 5, OpUpdate [107] 3 [1, 2]]) \<and>
   fst (applyBatchUnlocked
         (fst (run [OpSetOpaque [7, 7], OpSnapshotStart 1 5, OpUpdate [107] 3 [1, 2]]
                 (newIndex, newBleveDestPartition ''0'')))
         (snd (run [OpSetOpaque [7, 7], OpSnapshotStart 1 5, OpUpdate [107] 3 [1, 2]]
                 (newIndex, newBleveDestPartition ''0'')))) = None \<and>
   (\<exists>val seq bindex4 t4.
      GetOpaque
        (fst (snd (applyBatchUnlocked
          (fst (run [OpSetOpaque [7, 7], OpSnapshotStart 1 5, OpUpdate [107] 3 [1, 2]]
                  (newIndex, newBleveDestPartition ''0'')))
          (snd (run [OpSetOpaque [7, 7], OpSnapshotStart 1 5, OpUpdate [107] 3 [1, 2]]
                  (newIndex, newBleveDestPartition ''0''))))))
        (newBleveDestPartition (partition (newBleveDestPartition ''0''))) =
        (Inr (val, seq), bindex4, t4) \<and>
      slice_bytes val = [7, 7])"
proof -
  let ?ops = "[OpSnapshotStart 1 5, OpUpdate [107] 3 [1, 2]]"
  let ?R = "run (OpSetOpaque [7, 7] # ?ops) (newIndex, newBleveDestPartition ''0'')"
  let ?A = "applyBatchUnlocked (fst ?R) (snd ?R)"
  have h1: "partition_inv newIndex (newBleveDestPartition ''0'')"
    by (rule partition_inv_new) (simp add: newIndex_def)
  have h2: "\<forall>w. OpSetOpaque w \<notin> set ?ops" by simp
  have h3: "?R = (fst ?R, snd ?R)" by simp
  have e: "fst ?A = None"
    by (simp add: applyBatchUnlocked_err) (simp add: eval_defs)
  then have h4: "?A = (None, fst (snd ?A), fst (snd (snd ?A)), snd (snd (snd ?A)))"
    by (simp add: prod_eq_iff)
  have h5: "internal (fst (snd ?A)) = internal (fst (snd ?A))" ..
  have h6: "getFault (fst (snd ?A)) = (\<lambda>k. None)"
    by (simp add: eval_defs)
  from opaque_roundtrip [OF h1 h2 h3 h4 h5 h6] h1 h2 e
  show ?thesis by simp
qed

end
